theory Spec2Isabelle
  imports Main "HOL-Library.Char_ord" "HOL-Library.List_Lexorder"
begin

section \<open>Values\<close>

text \<open>
  A configuration is what \<^verbatim>\<open>JSON.parse\<close> produces. Strings are lists of code units
  below 256. A number is an integer of fewer than 22
  digits, which \<^verbatim>\<open>String\<close> prints in plain decimal digits; larger numbers, printed
  with an exponent, and fractional numbers are not represented. The pairs of \<open>JObj\<close> are the own properties of the
  object in the order \<^verbatim>\<open>for ... in\<close> visits them; a property read takes the first pair
  with the key.

  A property read can leave the configuration: a key that is not an own property is
  looked up on \<^verbatim>\<open>Object.prototype\<close> (for an array, on \<^verbatim>\<open>Array.prototype\<close> first),
  so the values a read produces are the configuration values, \<^verbatim>\<open>undefined\<close>, the two
  prototype objects and their built-in functions.
\<close>

datatype json =
    JNull
  | JBool bool
  | JNum int
  | JStr string
  | JArr "json list"
  | JObj "(string \<times> json) list"

datatype jsval =
    Undefined
  | Json json
  | ObjectPrototype
  | ArrayPrototype
  | NativeFunction string

definition typeof :: "jsval \<Rightarrow> string" where
  "typeof v = (case v of
      Undefined \<Rightarrow> ''undefined''
    | Json JNull \<Rightarrow> ''object''
    | Json (JBool b) \<Rightarrow> ''boolean''
    | Json (JNum n) \<Rightarrow> ''number''
    | Json (JStr s) \<Rightarrow> ''string''
    | Json (JArr xs) \<Rightarrow> ''object''
    | Json (JObj kvs) \<Rightarrow> ''object''
    | ObjectPrototype \<Rightarrow> ''object''
    | ArrayPrototype \<Rightarrow> ''object''
    | NativeFunction f \<Rightarrow> ''function'')"

text \<open>\<^verbatim>\<open>!v\<close> is true of \<^verbatim>\<open>undefined\<close>, \<^verbatim>\<open>null\<close>, \<^verbatim>\<open>false\<close>, \<^verbatim>\<open>0\<close> and \<^verbatim>\<open>''\<close>.\<close>

definition falsy :: "jsval \<Rightarrow> bool" where
  "falsy v = (v = Undefined \<or> v = Json JNull \<or> v = Json (JBool False)
              \<or> v = Json (JNum 0) \<or> v = Json (JStr []))"

definition is_nullish :: "jsval \<Rightarrow> bool" where
  "is_nullish v = (v = Undefined \<or> v = Json JNull)"

subsection \<open>Decimal digits\<close>

definition digit_char :: "nat \<Rightarrow> char" where
  "digit_char d = char_of (48 + d)"

fun show_nat :: "nat \<Rightarrow> string" where
  "show_nat n = (if n < 10 then [digit_char n]
                 else show_nat (n div 10) @ [digit_char (n mod 10)])"

declare show_nat.simps [simp del]

text \<open>The number a string of digits denotes.\<close>

definition digits_value :: "string \<Rightarrow> nat" where
  "digits_value s = foldl (\<lambda>v c. 10 * v + (of_char c - 48)) 0 s"

definition show_int :: "int \<Rightarrow> string" where
  "show_int i = (if i < 0 then CHR ''-'' # show_nat (nat (- i)) else show_nat (nat i))"

subsection \<open>Property reads\<close>

text \<open>
  The function-valued members of \<^verbatim>\<open>Object.prototype\<close> and \<^verbatim>\<open>Array.prototype\<close>
  (ECMAScript 2023, with the legacy accessors helpers of Annex B).
\<close>

definition object_prototype_methods :: "string list" where
  "object_prototype_methods =
     [''hasOwnProperty'', ''isPrototypeOf'', ''propertyIsEnumerable'', ''toLocaleString'',
      ''toString'', ''valueOf'', ''__defineGetter__'', ''__defineSetter__'',
      ''__lookupGetter__'', ''__lookupSetter__'']"

definition array_prototype_methods :: "string list" where
  "array_prototype_methods =
     [''at'', ''concat'', ''copyWithin'', ''entries'', ''every'', ''fill'', ''filter'',
      ''find'', ''findIndex'', ''findLast'', ''findLastIndex'', ''flat'', ''flatMap'',
      ''forEach'', ''includes'', ''indexOf'', ''join'', ''keys'', ''lastIndexOf'', ''map'',
      ''pop'', ''push'', ''reduce'', ''reduceRight'', ''reverse'', ''shift'', ''slice'',
      ''some'', ''sort'', ''splice'', ''toLocaleString'', ''toReversed'', ''toSorted'',
      ''toSpliced'', ''toString'', ''unshift'', ''values'', ''with'']"

definition object_prototype_own :: "string \<Rightarrow> jsval" where
  "object_prototype_own k =
     (if k = ''constructor'' then NativeFunction ''Object''
      else if k \<in> set object_prototype_methods then NativeFunction k
      else if k = ''__proto__'' then Json JNull
      else Undefined)"

text \<open>A key an ordinary object does not own: the read goes to \<^verbatim>\<open>Object.prototype\<close>,
  whose \<^verbatim>\<open>__proto__\<close> accessor answers with the prototype of the receiver.\<close>

definition object_inherited :: "string \<Rightarrow> jsval" where
  "object_inherited k =
     (if k = ''__proto__'' then ObjectPrototype else object_prototype_own k)"

definition array_prototype_own :: "string \<Rightarrow> jsval" where
  "array_prototype_own k =
     (if k = ''length'' then Json (JNum 0)
      else if k = ''constructor'' then NativeFunction ''Array''
      else if k \<in> set array_prototype_methods then NativeFunction k
      else if k = ''__proto__'' then ObjectPrototype
      else object_prototype_own k)"

definition array_inherited :: "string \<Rightarrow> jsval" where
  "array_inherited k =
     (if k = ''__proto__'' then ArrayPrototype else array_prototype_own k)"

text \<open>The index a key names in a sequence of \<open>n\<close> elements: the key is the canonical
  decimal form of a number below \<open>n\<close>.\<close>

definition index_of_key :: "nat \<Rightarrow> string \<Rightarrow> nat option" where
  "index_of_key n k = find (\<lambda>i. show_nat i = k) [0..<n]"

definition apostrophe :: char where
  "apostrophe = CHR 0x27"

text \<open>\<^verbatim>\<open>v[k]\<close>. Reading a property of \<^verbatim>\<open>null\<close> or \<^verbatim>\<open>undefined\<close> throws a
  \<^verbatim>\<open>TypeError\<close> (\<open>Inl\<close> carries the message of an error thrown). Of a string only the
  indices and the length are read here; booleans, numbers and functions are never read
  by the code below.\<close>

definition get_prop :: "jsval \<Rightarrow> string \<Rightarrow> string + jsval" where
  "get_prop v k = (case v of
      Undefined \<Rightarrow> Inl (''Cannot read properties of undefined (reading '' @ [apostrophe] @ k @ [apostrophe] @ '')'')
    | Json JNull \<Rightarrow> Inl (''Cannot read properties of null (reading '' @ [apostrophe] @ k @ [apostrophe] @ '')'')
    | Json (JObj kvs) \<Rightarrow>
        (case map_of kvs k of Some x \<Rightarrow> Inr (Json x) | None \<Rightarrow> Inr (object_inherited k))
    | Json (JArr xs) \<Rightarrow>
        (case index_of_key (length xs) k of
           Some i \<Rightarrow> Inr (Json (xs ! i))
         | None \<Rightarrow> if k = ''length'' then Inr (Json (JNum (int (length xs))))
                   else Inr (array_inherited k))
    | Json (JStr s) \<Rightarrow>
        (case index_of_key (length s) k of
           Some i \<Rightarrow> Inr (Json (JStr [s ! i]))
         | None \<Rightarrow> if k = ''length'' then Inr (Json (JNum (int (length s))))
                   else Inr Undefined)
    | ObjectPrototype \<Rightarrow> Inr (object_prototype_own k)
    | ArrayPrototype \<Rightarrow> Inr (array_prototype_own k)
    | _ \<Rightarrow> Inr Undefined)"

subsection \<open>String conversion\<close>

text \<open>
  \<^verbatim>\<open>String(v)\<close>. An object is converted through its \<^verbatim>\<open>toString\<close> member: the
  inherited one answers \<^verbatim>\<open>[object Object]\<close>; an own property of that name holds a
  configuration value, which is not callable, and then neither it nor \<^verbatim>\<open>valueOf\<close>
  yields a primitive, so the conversion throws a \<^verbatim>\<open>TypeError\<close>. An array joins the
  conversions of its elements with commas, \<^verbatim>\<open>null\<close> elements giving the empty string.
\<close>

fun join :: "string \<Rightarrow> string list \<Rightarrow> string" where
  "join sep [] = []"
| "join sep [x] = x"
| "join sep (x # y # ys) = x @ sep @ join sep (y # ys)"

fun converts :: "json \<Rightarrow> bool" where
  "converts (JArr xs) = list_all converts xs"
| "converts (JObj kvs) = (''toString'' \<notin> fst ` set kvs)"
| "converts _ = True"

fun json_string :: "json \<Rightarrow> string" where
  "json_string JNull = ''null''"
| "json_string (JBool b) = (if b then ''true'' else ''false'')"
| "json_string (JNum n) = show_int n"
| "json_string (JStr s) = s"
| "json_string (JArr xs) =
     join '','' (map (\<lambda>x. if x = JNull then [] else json_string x) xs)"
| "json_string (JObj kvs) = ''[object Object]''"

definition type_error_message :: string where
  "type_error_message = ''Cannot convert object to primitive value''"

text \<open>\<open>Inl\<close> carries the message of the error thrown.\<close>

definition to_string :: "jsval \<Rightarrow> string + string" where
  "to_string v = (case v of
      Undefined \<Rightarrow> Inr ''undefined''
    | Json j \<Rightarrow> if converts j then Inr (json_string j) else Inl type_error_message
    | ObjectPrototype \<Rightarrow> Inr ''[object Object]''
    | ArrayPrototype \<Rightarrow> Inr []
    | NativeFunction f \<Rightarrow> Inr (''function '' @ f @ ''() { [native code] }''))"

section \<open>TokenReplacer.getNestedValue\<close>

text \<open>\<^verbatim>\<open>path.split('.')\<close>: never empty; the empty string splits into one empty part.\<close>

fun split_on :: "char \<Rightarrow> string \<Rightarrow> string list" where
  "split_on d [] = [] # []"
| "split_on d (c # cs) =
     (if c = d then [] # split_on d cs
      else (c # hd (split_on d cs)) # tl (split_on d cs))"

text \<open>The loop over the parts, \<open>cur\<close> being \<^verbatim>\<open>current\<close>.\<close>

fun descend :: "jsval \<Rightarrow> string list \<Rightarrow> string + jsval" where
  "descend cur [] = Inr cur"
| "descend cur (part # parts) =
     (if cur = Json JNull \<or> cur = Undefined then Inr Undefined
      else if typeof cur \<noteq> ''object'' then Inr Undefined
      else (case get_prop cur part of
              Inl e \<Rightarrow> Inl e
            | Inr v \<Rightarrow> descend v parts))"

definition getNestedValue :: "jsval \<Rightarrow> string \<Rightarrow> string + jsval" where
  "getNestedValue obj path =
     (if falsy obj \<or> typeof obj \<noteq> ''object'' then Inr Undefined
      else if CHR ''.'' \<notin> set path then get_prop obj path
      else descend obj (split_on CHR ''.'' path))"


section \<open>ConfigValidator\<close>

record validator_options =
  strictMode :: bool
  allowEmpty :: bool
  warnOnUnused :: bool

definition default_validator_options :: validator_options where
  "default_validator_options = \<lparr> strictMode = False, allowEmpty = False, warnOnUnused = False \<rparr>"

text \<open>The result of \<^verbatim>\<open>validateSingleToken\<close>: \<^verbatim>\<open>{found: true, value}\<close> or
  \<^verbatim>\<open>{found: false, reason}\<close>.\<close>

datatype token_validation = Found jsval | NotFound string

definition validateSingleToken :: "jsval \<Rightarrow> string \<Rightarrow> validator_options \<Rightarrow> token_validation" where
  "validateSingleToken config token options =
     (case getNestedValue config token of
        Inl message \<Rightarrow> NotFound (''error accessing value: '' @ message)
      | Inr v \<Rightarrow>
          if v = Undefined then NotFound ''not found in config''
          else if v = Json JNull then NotFound ''value is null''
          else if \<not> allowEmpty options \<and> v = Json (JStr []) then NotFound ''value is empty string''
          else Found v)"

text \<open>
  \<^verbatim>\<open>getAllConfigPaths\<close>: the \<^verbatim>\<open>for ... in\<close> loop over the properties still to visit.
  \<open>own_check\<close> says that \<^verbatim>\<open>obj.hasOwnProperty\<close> is the built-in function; when the object
  has an own property of that name the call throws. A nested object that is not an
  array is entered; every other value, an array too, is a leaf.
\<close>

fun config_paths :: "bool \<Rightarrow> (string \<times> json) list \<Rightarrow> string \<Rightarrow> string + string list" where
  "config_paths own_check [] prefix = Inr []"
| "config_paths own_check ((key, v) # rest) prefix =
     (if \<not> own_check then Inl ''obj.hasOwnProperty is not a function''
      else
        let currentPath = (if prefix \<noteq> [] then prefix @ ''.'' @ key else key) in
        case v of
          JObj kvs \<Rightarrow>
            (case config_paths (''hasOwnProperty'' \<notin> fst ` set kvs) kvs currentPath of
               Inl e \<Rightarrow> Inl e
             | Inr inner \<Rightarrow>
                 (case config_paths own_check rest prefix of
                    Inl e \<Rightarrow> Inl e
                  | Inr others \<Rightarrow> Inr (inner @ others)))
        | _ \<Rightarrow>
            (case config_paths own_check rest prefix of
               Inl e \<Rightarrow> Inl e
             | Inr others \<Rightarrow> Inr (currentPath # others)))"

text \<open>The enumerable properties \<^verbatim>\<open>for (const key in obj)\<close> visits: the own properties of
  an object, the indices of an array or of a string, none of any other value.\<close>

definition enumerable_properties :: "jsval \<Rightarrow> (string \<times> json) list" where
  "enumerable_properties v = (case v of
      Json (JObj kvs) \<Rightarrow> kvs
    | Json (JArr xs) \<Rightarrow> zip (map show_nat [0..<length xs]) xs
    | Json (JStr s) \<Rightarrow> zip (map show_nat [0..<length s]) (map (\<lambda>c. JStr [c]) s)
    | _ \<Rightarrow> [])"

definition getAllConfigPaths :: "jsval \<Rightarrow> string + string list" where
  "getAllConfigPaths obj =
     config_paths (case obj of Json (JObj kvs) \<Rightarrow> ''hasOwnProperty'' \<notin> fst ` set kvs | _ \<Rightarrow> True)
       (enumerable_properties obj) []"

definition findUnusedConfigValues :: "jsval \<Rightarrow> string list \<Rightarrow> string + string list" where
  "findUnusedConfigValues config usedTokens =
     (case getAllConfigPaths config of
        Inl e \<Rightarrow> Inl e
      | Inr allConfigPaths \<Rightarrow> Inr (filter (\<lambda>configPath. configPath \<notin> set usedTokens) allConfigPaths))"


record validation_report =
  valid :: bool
  errors :: "string list"
  warnings :: "string list"
  missing :: "(string \<times> string) list"
  found :: "(string \<times> jsval \<times> string) list"
  unused :: "string list"

definition empty_report :: validation_report where
  "empty_report = \<lparr> valid = True, errors = [], warnings = [], missing = [], found = [], unused = [] \<rparr>"

text \<open>The body of the loop over the required tokens.\<close>

definition check_token :: "jsval \<Rightarrow> validator_options \<Rightarrow> validation_report \<Rightarrow> string \<Rightarrow> validation_report" where
  "check_token config opts result token =
     (case validateSingleToken config token opts of
        Found v \<Rightarrow> result \<lparr> found := found result @ [(token, v, typeof v)] \<rparr>
      | NotFound reason \<Rightarrow>
          (let result = result \<lparr> missing := missing result @ [(token, reason)] \<rparr> in
           if strictMode opts
           then result \<lparr> errors := errors result
                            @ [''Required token '' @ [apostrophe] @ token @ [apostrophe] @ '' is missing: '' @ reason],
                         valid := False \<rparr>
           else result \<lparr> warnings := warnings result
                            @ [''Token '' @ [apostrophe] @ token @ [apostrophe] @ '' is missing: '' @ reason] \<rparr>))"

definition validateAgainstTokens :: "jsval \<Rightarrow> string list \<Rightarrow> validator_options \<Rightarrow> string + validation_report" where
  "validateAgainstTokens config requiredTokens opts =
     (let result = foldl (check_token config opts) empty_report requiredTokens in
      if warnOnUnused opts then
        (case findUnusedConfigValues config requiredTokens of
           Inl e \<Rightarrow> Inl e
         | Inr unusedValues \<Rightarrow>
             Inr (if unusedValues \<noteq> []
                  then result \<lparr> unused := unusedValues,
                                warnings := warnings result
                                  @ [''Unused config values: '' @ join '', '' unusedValues] \<rparr>
                  else result \<lparr> unused := unusedValues \<rparr>))
      else Inr result)"


section \<open>Regular expressions\<close>

text \<open>
  \<^verbatim>\<open>new RegExp(source, 'g')\<close> either throws a \<^verbatim>\<open>SyntaxError\<close> or yields a regular
  expression, which is used here only as \<^verbatim>\<open>subject.replace(re, replacement)\<close>. The
  functions below take the constructor as a parameter: \<open>Inl\<close> is the message of the
  syntax error, \<open>Inr\<close> the replacing function of the expression.
\<close>

type_synonym regexp = "string \<Rightarrow> string \<Rightarrow> string"

type_synonym regexp_engine = "string \<Rightarrow> string + regexp"

text \<open>
  The patterns interpreted here are sequences of single-character atoms, each
  optionally under a greedy star, and the end-of-input assertion \<^verbatim>\<open>$\<close>: a character
  that is not a syntax character stands for itself; \<^verbatim>\<open>.\<close> is any character but a line
  terminator; \<^verbatim>\<open>\s\<close> is white space; \<^verbatim>\<open>\{\<close> and \<^verbatim>\<open>\}\<close> are the braces. Every other
  pattern is left uninterpreted.
\<close>

datatype atom = Lit char | AnyChar | Space | EndOfInput

datatype item = One atom | Star atom

definition backslash :: char where
  "backslash = CHR 0x5C"

definition is_space :: "char \<Rightarrow> bool" where
  "is_space c = (of_char c \<in> {9, 10, 11, 12, 13, 32, 160 :: nat})"

definition is_line_terminator :: "char \<Rightarrow> bool" where
  "is_line_terminator c = (of_char c \<in> {10, 13 :: nat})"

definition syntax_character :: "char \<Rightarrow> bool" where
  "syntax_character c = (c \<in> set ''^$.*+?()[]{}|'' \<or> c = backslash)"

fun accepts :: "atom \<Rightarrow> char \<Rightarrow> bool" where
  "accepts (Lit d) c = (c = d)"
| "accepts AnyChar c = (\<not> is_line_terminator c)"
| "accepts Space c = is_space c"
| "accepts EndOfInput c = False"

text \<open>One atom at the head of a pattern, with the rest of the pattern.\<close>

definition parse_atom :: "string \<Rightarrow> (atom \<times> string) option" where
  "parse_atom p = (case p of
      [] \<Rightarrow> None
    | c # cs \<Rightarrow>
        if c = backslash then
          (case cs of
             [] \<Rightarrow> None
           | e # rest \<Rightarrow>
               if e = CHR ''{'' \<or> e = CHR ''}'' then Some (Lit e, rest)
               else if e = CHR ''s'' then Some (Space, rest)
               else None)
        else if c = CHR ''.'' then Some (AnyChar, cs)
        else if c = CHR ''$'' then Some (EndOfInput, cs)
        else if syntax_character c then None
        else Some (Lit c, cs))"

function parse_items :: "string \<Rightarrow> item list option" where
  "parse_items p =
     (if p = [] then Some []
      else case parse_atom p of
        None \<Rightarrow> None
      | Some (a, rest) \<Rightarrow>
          if rest \<noteq> [] \<and> hd rest = CHR ''*''
          then (if a = EndOfInput then None
                else map_option (\<lambda>items. Star a # items) (parse_items (tl rest)))
          else map_option (\<lambda>items. One a # items) (parse_items rest))"
  by pat_completeness auto
termination
  by (relation "measure length")
     (auto simp: parse_atom_def split: list.splits if_splits)

declare parse_items.simps [simp del]

text \<open>
  Matching at the head of \<open>s\<close>, giving the input left after the match. A star first
  takes as many characters as it can and gives them back one at a time
  (\<open>backtrack\<close>), as the backtracking matcher of the language does.
\<close>

fun match_items :: "item list \<Rightarrow> string \<Rightarrow> string option"
  and backtrack :: "item list \<Rightarrow> string \<Rightarrow> nat \<Rightarrow> string option" where
  "match_items [] s = Some s"
| "match_items (One a # items) s =
     (if a = EndOfInput then (if s = [] then match_items items s else None)
      else if s \<noteq> [] \<and> accepts a (hd s) then match_items items (tl s)
      else None)"
| "match_items (Star a # items) s = backtrack items s (length (takeWhile (accepts a) s))"
| "backtrack items s 0 = match_items items s"
| "backtrack items s (Suc k) =
     (case match_items items (drop (Suc k) s) of
        Some r \<Rightarrow> Some r
      | None \<Rightarrow> backtrack items s k)"


text \<open>The replacement text of one match (\<^verbatim>\<open>GetSubstitution\<close> for an expression without
  groups): \<^verbatim>\<open>$$\<close> is a dollar sign, \<^verbatim>\<open>$&\<close> the match, \<^verbatim>\<open>$`\<close> the subject before the
  match, \<^verbatim>\<open>$'\<close> the subject after it; any other character, a dollar sign before a
  digit too, stands for itself.\<close>

fun expand :: "string \<Rightarrow> string \<Rightarrow> string \<Rightarrow> string \<Rightarrow> string" where
  "expand [] preceding matched after = []"
| "expand [c] preceding matched after = [c]"
| "expand (c # d # r) preceding matched after =
     (if c = CHR ''$'' \<and> d = CHR ''$'' then CHR ''$'' # expand r preceding matched after
      else if c = CHR ''$'' \<and> d = CHR ''&'' then matched @ expand r preceding matched after
      else if c = CHR ''$'' \<and> d = CHR 0x60 then preceding @ expand r preceding matched after
      else if c = CHR ''$'' \<and> d = apostrophe then after @ expand r preceding matched after
      else c # expand (d # r) preceding matched after)"

text \<open>The global replacement: the matches are found from left to right, each search
  starting where the previous match ended. \<open>preceding\<close> is the subject up to \<open>rest\<close>.
  An interpreted pattern never matches the empty string, so a match always consumes
  input; the last branch only makes the definition total for the other item lists.\<close>

function replace_from :: "item list \<Rightarrow> string \<Rightarrow> string \<Rightarrow> string \<Rightarrow> string" where
  "replace_from items repl preceding rest =
     (if rest = [] then []
      else case match_items items rest of
        None \<Rightarrow> hd rest # replace_from items repl (preceding @ [hd rest]) (tl rest)
      | Some after \<Rightarrow>
          if length after < length rest
          then expand repl preceding (take (length rest - length after) rest) after
                 @ replace_from items repl (preceding @ take (length rest - length after) rest) after
          else hd rest # replace_from items repl (preceding @ [hd rest]) (tl rest))"
  by pat_completeness auto
termination
  by (relation "measure (\<lambda>(items, repl, preceding, rest). length rest)") auto

declare replace_from.simps [simp del]

fun min_width :: "item list \<Rightarrow> nat" where
  "min_width [] = 0"
| "min_width (One a # items) = (if a = EndOfInput then 0 else 1) + min_width items"
| "min_width (Star a # items) = min_width items"

text \<open>The interpreted expressions: the patterns of the fragment that cannot match the
  empty string.\<close>

definition interpret_pattern :: "string \<Rightarrow> regexp option" where
  "interpret_pattern source =
     (case parse_items source of
        None \<Rightarrow> None
      | Some items \<Rightarrow>
          if min_width items = 0 then None
          else Some (\<lambda>subject replacement. replace_from items replacement [] subject))"

text \<open>An engine conforms when it agrees with the interpretation on every interpreted
  pattern; on the others it is free.\<close>

definition conforms :: "regexp_engine \<Rightarrow> bool" where
  "conforms engine = (\<forall>source re. interpret_pattern source = Some re \<longrightarrow> engine source = Inr re)"

text \<open>The engine used to evaluate examples. It rejects the patterns that are not
  interpreted, so it stands for the language's engine on interpreted patterns only.\<close>

definition reference_engine :: regexp_engine where
  "reference_engine source =
     (case interpret_pattern source of
        Some re \<Rightarrow> Inr re
      | None \<Rightarrow> Inl (''Invalid regular expression: /'' @ source @ ''/''))"

section \<open>TokenReplacer\<close>

text \<open>
  \<^verbatim>\<open>escapeRegex\<close> replaces the matches of \<^verbatim>\<open>/[.*+?^${}()|[\\]\\\\]/g\<close> by two backslashes
  and the match. The character class ends at the first \<^verbatim>\<open>]\<close>, so a match is one
  character of \<^verbatim>\<open>.*+?^${}()|[\<close> or a backslash, followed by two backslashes and a
  closing bracket.
\<close>

definition escape_class :: "char \<Rightarrow> bool" where
  "escape_class c = (c \<in> set ''.*+?^${}()|['' \<or> c = backslash)"

fun escapeRegex :: "string \<Rightarrow> string" where
  "escapeRegex (c # b1 # b2 # d # rest) =
     (if escape_class c \<and> b1 = backslash \<and> b2 = backslash \<and> d = CHR '']''
      then [backslash, backslash, c, b1, b2, d] @ escapeRegex rest
      else c # escapeRegex (b1 # b2 # d # rest))"
| "escapeRegex s = s"

text \<open>The source of \<^verbatim>\<open>tokenRegex\<close>: \<^verbatim>\<open>\{\{\s*\<close>, the escaped token, \<^verbatim>\<open>\s*\}\}\<close>.\<close>

definition token_pattern :: "string \<Rightarrow> string" where
  "token_pattern token =
     [backslash, CHR ''{'', backslash, CHR ''{'', backslash, CHR ''s'', CHR ''*'']
     @ escapeRegex token
     @ [backslash, CHR ''s'', CHR ''*'', backslash, CHR ''}'', backslash, CHR ''}'']"


section \<open>TokenExtractor.extractTokens\<close>

text \<open>A match of \<^verbatim>\<open>/\{\{([^}]+)\}\}/\<close> at the head of \<open>s\<close>: the group and the input after
  the match. The group is the longest run of characters other than \<^verbatim>\<open>}\<close>; it must not
  be empty and must be followed by two closing braces.\<close>

definition marker_at :: "string \<Rightarrow> (string \<times> string) option" where
  "marker_at s =
     (if take 2 s = ''{{''
      then (let name = takeWhile (\<lambda>c. c \<noteq> CHR ''}'') (drop 2 s);
                rest = dropWhile (\<lambda>c. c \<noteq> CHR ''}'') (drop 2 s)
            in if name \<noteq> [] \<and> take 2 rest = ''}}'' then Some (name, drop 2 rest) else None)
      else None)"

definition trim :: "string \<Rightarrow> string" where
  "trim s = rev (dropWhile is_space (rev (dropWhile is_space s)))"

text \<open>The \<^verbatim>\<open>exec\<close> loop: the trimmed names in the order of the matches.\<close>

function scan_markers :: "string \<Rightarrow> string list" where
  "scan_markers s =
     (if s = [] then []
      else case marker_at s of
        Some (name, rest) \<Rightarrow> trim name # scan_markers rest
      | None \<Rightarrow> scan_markers (tl s))"
  by pat_completeness auto
termination
proof (relation "measure length", goal_cases)
  case 1
  show ?case by simp
next
  case (2 s)
  then show ?case by simp
next
  case (3 s x name rest)
  from 3 have "rest = drop 2 (dropWhile (\<lambda>c. c \<noteq> CHR ''}'') (drop 2 s))"
    by (auto simp: marker_at_def Let_def split: if_splits)
  then have "length rest \<le> length (dropWhile (\<lambda>c. c \<noteq> CHR ''}'') (drop 2 s))"
    by simp
  also have "\<dots> \<le> length (drop 2 s)"
    by (rule length_dropWhile_le)
  finally have "length rest \<le> length s - 2" by simp
  moreover from 3 have "length s \<noteq> 0" by simp
  ultimately have "length rest < length s" by arith
  then show ?case by simp
qed

declare scan_markers.simps [simp del]

text \<open>The names go through a set and are sorted by code units.\<close>

definition extractTokens :: "string \<Rightarrow> string list" where
  "extractTokens templateContent = sort (remdups (scan_markers templateContent))"

section \<open>TokenReplacer.replaceTokens\<close>

record replacer_options =
  errorHandling :: string
  missingTokenPlaceholder :: string
  preserveUnknownTokens :: bool

definition default_replacer_options :: replacer_options where
  "default_replacer_options =
     \<lparr> errorHandling = ''warn'', missingTokenPlaceholder = ''[MISSING]'',
       preserveUnknownTokens = False \<rparr>"

record missing_handling =
  shouldReplace :: bool
  replacement :: string

text \<open>\<^verbatim>\<open>handleMissingToken\<close> pushes its message on \<^verbatim>\<open>warnings\<close> (here \<open>warns\<close>); the list is returned with
  the decision. \<open>error\<close> is the message of the error caught, if any.\<close>

definition handleMissingToken ::
  "string \<Rightarrow> replacer_options \<Rightarrow> string list \<Rightarrow> string option \<Rightarrow> string list \<times> missing_handling" where
  "handleMissingToken token options warns error =
     (let message = (case error of
                       Some m \<Rightarrow> ''Token '' @ [apostrophe] @ token @ [apostrophe] @ '' caused error: '' @ m
                     | None \<Rightarrow> ''Token '' @ [apostrophe] @ token @ [apostrophe] @ '' not found in config'');
          warns = warns @ [message]
      in if errorHandling options = ''fail''
         then (warns, \<lparr> shouldReplace = False, replacement = [] \<rparr>)
         else if errorHandling options = ''warn''
         then (warns, \<lparr> shouldReplace = True, replacement = missingTokenPlaceholder options \<rparr>)
         else if errorHandling options = ''graceful''
         then (warns, \<lparr> shouldReplace = True, replacement = missingTokenPlaceholder options \<rparr>)
         else (warns, \<lparr> shouldReplace = False, replacement = [] \<rparr>))"

text \<open>What the loop does with a missing token or a caught error.\<close>

definition replace_missing ::
  "regexp \<Rightarrow> string \<Rightarrow> replacer_options \<Rightarrow> string \<times> string list \<Rightarrow> string option \<Rightarrow> string \<times> string list" where
  "replace_missing tokenRegex token opts state error =
     (let (warns, handled) = handleMissingToken token opts (snd state) error
      in if shouldReplace handled
         then (tokenRegex (fst state) (replacement handled), warns)
         else (fst state, warns))"

text \<open>The body of the loop over the tokens; the state is \<^verbatim>\<open>result\<close> and \<^verbatim>\<open>warnings\<close>. The
  expression is built outside the \<^verbatim>\<open>try\<close>, so its syntax error leaves the function.\<close>

definition replace_token ::
  "regexp_engine \<Rightarrow> jsval \<Rightarrow> replacer_options \<Rightarrow> string \<times> string list \<Rightarrow> string
     \<Rightarrow> string + string \<times> string list" where
  "replace_token engine config opts state token =
     (case engine (token_pattern token) of
        Inl syntax_error \<Rightarrow> Inl syntax_error
      | Inr tokenRegex \<Rightarrow>
          (case getNestedValue config token of
             Inl error \<Rightarrow> Inr (replace_missing tokenRegex token opts state (Some error))
           | Inr v \<Rightarrow>
               if v \<noteq> Undefined \<and> v \<noteq> Json JNull
               then (case to_string v of
                       Inl error \<Rightarrow> Inr (replace_missing tokenRegex token opts state (Some error))
                     | Inr str \<Rightarrow> Inr (tokenRegex (fst state) str, snd state))
               else Inr (replace_missing tokenRegex token opts state None)))"

fun replace_loop ::
  "regexp_engine \<Rightarrow> jsval \<Rightarrow> replacer_options \<Rightarrow> string \<times> string list \<Rightarrow> string list
     \<Rightarrow> string + string \<times> string list" where
  "replace_loop engine config opts state [] = Inr state"
| "replace_loop engine config opts state (token # tokens) =
     (case replace_token engine config opts state token of
        Inl e \<Rightarrow> Inl e
      | Inr state' \<Rightarrow> replace_loop engine config opts state' tokens)"

text \<open>
  \<^verbatim>\<open>replaceTokens\<close>: \<open>Inl\<close> is the message of the error thrown; \<open>Inr\<close> is the text
  returned with the warnings passed to \<^verbatim>\<open>console.warn\<close> (each is printed after a warning
  sign and two spaces). \<open>tokens = None\<close> is the omitted argument.
\<close>

definition replaceTokens ::
  "regexp_engine \<Rightarrow> string \<Rightarrow> jsval \<Rightarrow> string list option \<Rightarrow> replacer_options
     \<Rightarrow> string + string \<times> string list" where
  "replaceTokens engine content config tokens opts =
     (let tokens = (case tokens of None \<Rightarrow> extractTokens content | Some ts \<Rightarrow> ts) in
      case replace_loop engine config opts (content, []) tokens of
        Inl e \<Rightarrow> Inl e
      | Inr (result, warns) \<Rightarrow>
          if warns \<noteq> [] then
            (if errorHandling opts = ''fail''
             then Inl (''Token replacement failed:'' @ [CHR 0x0A] @ join [CHR 0x0A] warns)
             else if errorHandling opts = ''warn'' then Inr (result, warns)
             else Inr (result, []))
          else Inr (result, []))"


section \<open>TokenReplacer.previewReplacements\<close>

record preview =
  preview_tokens :: "(string \<times> string) list"
  preview_missing :: "string list"
  preview_errors :: "(string \<times> string) list"

text \<open>The body of the loop: the \<^verbatim>\<open>try\<close> covers the lookup and the string conversion.\<close>

definition preview_token :: "jsval \<Rightarrow> preview \<Rightarrow> string \<Rightarrow> preview" where
  "preview_token config pv token =
     (case getNestedValue config token of
        Inl error \<Rightarrow> pv \<lparr> preview_errors := preview_errors pv @ [(token, error)] \<rparr>
      | Inr v \<Rightarrow>
          if v \<noteq> Undefined \<and> v \<noteq> Json JNull
          then (case to_string v of
                  Inl error \<Rightarrow> pv \<lparr> preview_errors := preview_errors pv @ [(token, error)] \<rparr>
                | Inr str \<Rightarrow> pv \<lparr> preview_tokens := preview_tokens pv @ [(token, str)] \<rparr>)
          else pv \<lparr> preview_missing := preview_missing pv @ [token] \<rparr>)"

definition previewReplacements :: "string \<Rightarrow> jsval \<Rightarrow> string list option \<Rightarrow> preview" where
  "previewReplacements content config tokens =
     foldl (preview_token config)
       \<lparr> preview_tokens = [], preview_missing = [], preview_errors = [] \<rparr>
       (case tokens of None \<Rightarrow> extractTokens content | Some ts \<Rightarrow> ts)"

section \<open>TokenExtractor.getCachedTokens\<close>

text \<open>
  The file system maps an absolute path to a file: its modification time in
  milliseconds and what reading it gives, its content or the message of the error
  (a directory, a file without read permission). \<^verbatim>\<open>path.resolve\<close> is a parameter of
  the functions below.
\<close>

datatype file_node = File (file_mtime: int) (file_read: "string + string")

type_synonym filesystem = "string \<Rightarrow> file_node option"

definition no_such_file :: "string \<Rightarrow> string \<Rightarrow> string" where
  "no_such_file operation path =
     ''ENOENT: no such file or directory, '' @ operation @ '' '' @ [apostrophe] @ path @ [apostrophe]"

definition statSync :: "filesystem \<Rightarrow> string \<Rightarrow> string + int" where
  "statSync fs path = (case fs path of
      None \<Rightarrow> Inl (no_such_file ''stat'' path)
    | Some f \<Rightarrow> Inr (file_mtime f))"

definition readFileSync :: "filesystem \<Rightarrow> string \<Rightarrow> string + string" where
  "readFileSync fs path = (case fs path of
      None \<Rightarrow> Inl (no_such_file ''open'' path)
    | Some f \<Rightarrow> file_read f)"

record cache_entry =
  cached_tokens :: "string list"
  cached_mtime :: int

type_synonym token_cache = "string \<Rightarrow> cache_entry option"

text \<open>The second half of \<^verbatim>\<open>getCachedTokens\<close>: read the file, extract, store.\<close>

definition read_and_cache ::
  "filesystem \<Rightarrow> token_cache \<Rightarrow> string \<Rightarrow> string \<Rightarrow> (string + string list) \<times> token_cache" where
  "read_and_cache fs cache templatePath absolutePath =
     (case readFileSync fs absolutePath of
        Inl message \<Rightarrow>
          (Inl (''Error reading template file '' @ templatePath @ '': '' @ message), cache)
      | Inr content \<Rightarrow>
          (let toks = extractTokens content in
           case statSync fs absolutePath of
             Inl message \<Rightarrow>
               (Inl (''Error reading template file '' @ templatePath @ '': '' @ message), cache)
           | Inr t \<Rightarrow>
               (Inr toks, cache(absolutePath \<mapsto> \<lparr> cached_tokens = toks, cached_mtime = t \<rparr>))))"

definition getCachedTokens ::
  "(string \<Rightarrow> string) \<Rightarrow> filesystem \<Rightarrow> token_cache \<Rightarrow> string
     \<Rightarrow> (string + string list) \<times> token_cache" where
  "getCachedTokens resolve fs cache templatePath =
     (let absolutePath = resolve templatePath in
      case cache absolutePath of
        Some cached \<Rightarrow>
          (case statSync fs absolutePath of
             Inl message \<Rightarrow>
               (Inl (''Template file not found: '' @ templatePath), cache(absolutePath := None))
           | Inr t \<Rightarrow>
               if t = cached_mtime cached then (Inr (cached_tokens cached), cache)
               else read_and_cache fs cache templatePath absolutePath)
      | None \<Rightarrow> read_and_cache fs cache templatePath absolutePath)"


section \<open>TemplateProcessor\<close>

record processor_options =
  po_errorHandling :: string
  po_missingTokenPlaceholder :: string
  strictValidation :: bool
  allowEmptyValues :: bool
  po_warnOnUnused :: bool
  cacheTokens :: bool

definition default_processor_options :: processor_options where
  "default_processor_options =
     \<lparr> po_errorHandling = ''warn'', po_missingTokenPlaceholder = ''[MISSING]'',
       strictValidation = False, allowEmptyValues = False, po_warnOnUnused = False,
       cacheTokens = True \<rparr>"

text \<open>
  The result of \<^verbatim>\<open>processTemplate\<close>, without its time stamp and its copy of the options.
  \<^verbatim>\<open>tokens.total\<close>, \<^verbatim>\<open>tokens.missing\<close>, \<^verbatim>\<open>tokens.replaced\<close> and the two sizes are
  computed from the fields kept.
\<close>

datatype template_result =
    Processed (result_path: string) (content: string) (originalContent: string)
              (tokens_found: "string list") (validation: validation_report)
  | Failed (result_path: string) (error_message: string)

fun success :: "template_result \<Rightarrow> bool" where
  "success (Processed path c orig toks v) = True"
| "success (Failed path e) = False"

text \<open>The body of the \<^verbatim>\<open>try\<close> after the tokens are known.\<close>

definition validate_and_replace ::
  "regexp_engine \<Rightarrow> string \<Rightarrow> string \<Rightarrow> string list \<Rightarrow> jsval \<Rightarrow> processor_options
     \<Rightarrow> template_result" where
  "validate_and_replace engine templatePath templateContent toks config opts =
     (case validateAgainstTokens config toks
             \<lparr> strictMode = strictValidation opts, allowEmpty = allowEmptyValues opts,
               warnOnUnused = po_warnOnUnused opts \<rparr> of
        Inl e \<Rightarrow> Failed templatePath e
      | Inr v \<Rightarrow>
          if \<not> valid v \<and> po_errorHandling opts = ''fail''
          then Failed templatePath
                 (''Template validation failed for '' @ templatePath @ '':'' @ [CHR 0x0A]
                  @ join [CHR 0x0A] (errors v))
          else (case replaceTokens engine templateContent config (Some toks)
                       \<lparr> errorHandling = po_errorHandling opts,
                         missingTokenPlaceholder = po_missingTokenPlaceholder opts,
                         preserveUnknownTokens = False \<rparr> of
                  Inl e \<Rightarrow> Failed templatePath e
                | Inr (processedContent, warns) \<Rightarrow>
                    Processed templatePath processedContent templateContent toks v))"

text \<open>\<^verbatim>\<open>processTemplate\<close> catches every error and returns the cache as the call left it.
  It reads the file with the path as written: the file is the one at the resolved path, and
  the message of a missing file names the path as written.\<close>

definition processTemplate ::
  "(string \<Rightarrow> string) \<Rightarrow> regexp_engine \<Rightarrow> filesystem \<Rightarrow> token_cache \<Rightarrow> string \<Rightarrow> jsval
     \<Rightarrow> processor_options \<Rightarrow> template_result \<times> token_cache" where
  "processTemplate resolve engine fs cache templatePath config opts =
     (case (case fs (resolve templatePath) of
              None \<Rightarrow> Inl (no_such_file ''open'' templatePath)
            | Some f \<Rightarrow> file_read f) of
        Inl e \<Rightarrow> (Failed templatePath e, cache)
      | Inr templateContent \<Rightarrow>
          if cacheTokens opts
          then (case getCachedTokens resolve fs cache templatePath of
                  (Inl e, cache') \<Rightarrow> (Failed templatePath e, cache')
                | (Inr toks, cache') \<Rightarrow>
                    (validate_and_replace engine templatePath templateContent toks config opts,
                     cache'))
          else (validate_and_replace engine templatePath templateContent
                  (extractTokens templateContent) config opts, cache))"

record batch_result =
  batch_success :: bool
  processed :: "template_result list"
  failed :: "template_result list"
  summary_total :: nat
  summary_successful :: nat
  summary_failed :: nat
  aggregatedTokens :: "string list"
  aggregated_errors :: "string list"
  aggregated_warnings :: "string list"

text \<open>Adding to the set of aggregated tokens keeps the order of first insertion.\<close>

definition add_token :: "string list \<Rightarrow> string \<Rightarrow> string list" where
  "add_token acc t = (if t \<in> set acc then acc else acc @ [t])"

text \<open>What the loop does with the result of one template. \<^verbatim>\<open>processTemplate\<close> does not
  throw, so the \<^verbatim>\<open>catch\<close> of the loop has no case here.\<close>

definition record_result :: "batch_result \<Rightarrow> template_result \<Rightarrow> batch_result" where
  "record_result results r =
     (case r of
        Processed path c orig toks v \<Rightarrow>
          results \<lparr> processed := processed results @ [r],
                    summary_successful := summary_successful results + 1,
                    aggregatedTokens := foldl add_token (aggregatedTokens results) toks,
                    aggregated_errors := aggregated_errors results @ errors v,
                    aggregated_warnings := aggregated_warnings results @ warnings v \<rparr>
      | Failed path e \<Rightarrow>
          results \<lparr> failed := failed results @ [r],
                    summary_failed := summary_failed results + 1,
                    batch_success := False \<rparr>)"

fun process_each ::
  "(string \<Rightarrow> string) \<Rightarrow> regexp_engine \<Rightarrow> filesystem \<Rightarrow> jsval \<Rightarrow> processor_options
     \<Rightarrow> batch_result \<times> token_cache \<Rightarrow> string list \<Rightarrow> batch_result \<times> token_cache" where
  "process_each resolve engine fs config opts (results, cache) [] = (results, cache)"
| "process_each resolve engine fs config opts (results, cache) (templatePath # rest) =
     (let (r, cache') = processTemplate resolve engine fs cache templatePath config opts
      in process_each resolve engine fs config opts (record_result results r, cache') rest)"

definition processMultipleTemplates ::
  "(string \<Rightarrow> string) \<Rightarrow> regexp_engine \<Rightarrow> filesystem \<Rightarrow> token_cache \<Rightarrow> string list \<Rightarrow> jsval
     \<Rightarrow> processor_options \<Rightarrow> batch_result \<times> token_cache" where
  "processMultipleTemplates resolve engine fs cache templatePaths config opts =
     process_each resolve engine fs config opts
       (\<lparr> batch_success = True, processed = [], failed = [],
          summary_total = length templatePaths, summary_successful = 0, summary_failed = 0,
          aggregatedTokens = [], aggregated_errors = [], aggregated_warnings = [] \<rparr>, cache)
       templatePaths"


section \<open>Notions used in the statements\<close>

text \<open>What the loop of \<^verbatim>\<open>replaceTokens\<close> substitutes for a token with a value: the string
  conversion of the value found, when the value is neither \<^verbatim>\<open>undefined\<close> nor \<^verbatim>\<open>null\<close>
  and the conversion does not throw.\<close>

definition substitutes :: "jsval \<Rightarrow> string \<Rightarrow> string option" where
  "substitutes config token =
     (case getNestedValue config token of
        Inl e \<Rightarrow> None
      | Inr v \<Rightarrow>
          if v \<noteq> Undefined \<and> v \<noteq> Json JNull
          then (case to_string v of Inl e \<Rightarrow> None | Inr str \<Rightarrow> Some str)
          else None)"

text \<open>The message of the error the \<^verbatim>\<open>try\<close> around the lookup and the conversion catches
  for a token, if it catches one.\<close>

definition caught_error :: "jsval \<Rightarrow> string \<Rightarrow> string option" where
  "caught_error config token =
     (case getNestedValue config token of
        Inl e \<Rightarrow> Some e
      | Inr v \<Rightarrow>
          if v \<noteq> Undefined \<and> v \<noteq> Json JNull
          then (case to_string v of Inl e \<Rightarrow> Some e | Inr str \<Rightarrow> None)
          else None)"

text \<open>The warning \<^verbatim>\<open>handleMissingToken\<close> records for a token that is not substituted.\<close>

definition missing_message :: "jsval \<Rightarrow> string \<Rightarrow> string" where
  "missing_message config token =
     (case caught_error config token of
        Some m \<Rightarrow> ''Token '' @ [apostrophe] @ token @ [apostrophe] @ '' caused error: '' @ m
      | None \<Rightarrow> ''Token '' @ [apostrophe] @ token @ [apostrophe] @ '' not found in config'')"

text \<open>The results of \<^verbatim>\<open>processTemplate\<close> for the paths of a batch, in order, the cache
  passing from each call to the next.\<close>

fun results_of ::
  "(string \<Rightarrow> string) \<Rightarrow> regexp_engine \<Rightarrow> filesystem \<Rightarrow> jsval \<Rightarrow> processor_options
     \<Rightarrow> token_cache \<Rightarrow> string list \<Rightarrow> template_result list" where
  "results_of resolve engine fs config opts cache [] = []"
| "results_of resolve engine fs config opts cache (templatePath # rest) =
     (let (r, cache') = processTemplate resolve engine fs cache templatePath config opts
      in r # results_of resolve engine fs config opts cache' rest)"

text \<open>The leaves of a configuration object as lists of keys: a value that is an object
  (not an array) is entered, every other value is a leaf.\<close>

fun leaf_paths :: "(string \<times> json) list \<Rightarrow> string list list" where
  "leaf_paths [] = []"
| "leaf_paths ((k, v) # rest) =
     (case v of JObj kvs \<Rightarrow> map ((#) k) (leaf_paths kvs) | _ \<Rightarrow> [k] # []) @ leaf_paths rest"

text \<open>No object entered by the flattening has an own property \<^verbatim>\<open>hasOwnProperty\<close>.\<close>

fun no_shadowing :: "(string \<times> json) list \<Rightarrow> bool" where
  "no_shadowing [] = True"
| "no_shadowing ((k, v) # rest) =
     (k \<noteq> ''hasOwnProperty''
      \<and> (case v of JObj kvs \<Rightarrow> no_shadowing kvs | _ \<Rightarrow> True)
      \<and> no_shadowing rest)"

text \<open>A cache is fresh for a file system when every entry whose time stamp is that of
  its file holds the tokens of the content of the file.\<close>

definition cache_fresh :: "token_cache \<Rightarrow> filesystem \<Rightarrow> bool" where
  "cache_fresh cache fs =
     (\<forall>path e body. cache path = Some e \<and> fs path = Some (File (cached_mtime e) (Inr body))
        \<longrightarrow> cached_tokens e = extractTokens body)"

text \<open>Three paths of which the second names no file.\<close>

definition three_files :: filesystem where
  "three_files = [''a.html'' \<mapsto> File 1 (Inr ''Hi {{name}}''), ''c.html'' \<mapsto> File 2 (Inr ''Bye {{name}}'')]"

text \<open>
  The inputs left by the ways a pattern can match at the head of \<open>s\<close>: the matcher
  \<open>match_items\<close> returns the first of them in its order of trial.
\<close>

primrec remainders :: "item list \<Rightarrow> string \<Rightarrow> string set" where
  "remainders [] = (\<lambda>s. {s})"
| "remainders (x # items) = (\<lambda>s.
     case x of
       One a \<Rightarrow>
         if a = EndOfInput then (if s = [] then remainders items s else {})
         else if s \<noteq> [] \<and> accepts a (hd s) then remainders items (tl s)
         else {}
     | Star a \<Rightarrow> (\<Union>k \<in> {..length (takeWhile (accepts a) s)}. remainders items (drop k s)))"

text \<open>A template is tidy when every pair of opening braces in it starts a marker whose
  name has no opening brace.\<close>

fun tidy :: "string \<Rightarrow> bool" where
  "tidy [] = True"
| "tidy (c # s) =
     ((take 2 (c # s) = ''{{'' \<longrightarrow>
         (case marker_at (c # s) of
            None \<Rightarrow> False
          | Some (name, rest) \<Rightarrow> CHR ''{'' \<notin> set name))
      \<and> tidy s)"

declare tidy.simps(2) [simp del]

text \<open>The characters of a token whose pattern is interpreted and matches the token: the
  dot and the characters that are not syntax characters.\<close>

definition token_char :: "char \<Rightarrow> bool" where
  "token_char c = (c = CHR ''.'' \<or> \<not> syntax_character c)"

definition items_of_token :: "string \<Rightarrow> item list" where
  "items_of_token t =
     [One (Lit CHR ''{''), One (Lit CHR ''{''), Star Space]
     @ map (\<lambda>c. One (if c = CHR ''.'' then AnyChar else Lit c)) t
     @ [Star Space, One (Lit CHR ''}''), One (Lit CHR ''}'')]"

text \<open>A replacement text refers to the match or to the subject around it when a
  dollar sign stands before \<^verbatim>\<open>&\<close>, a backquote or an apostrophe.\<close>

fun has_reference :: "string \<Rightarrow> bool" where
  "has_reference (c # d # r) =
     (c = CHR ''$'' \<and> (d = CHR ''&'' \<or> d = CHR 0x60 \<or> d = apostrophe) \<or> has_reference (d # r))"
| "has_reference s = False"

definition safe_value :: "string \<Rightarrow> bool" where
  "safe_value v = (CHR ''{'' \<notin> set v \<and> \<not> has_reference v)"

section \<open>Properties of the lookup\<close>


lemma get_prop_total:
  "v \<noteq> Undefined \<Longrightarrow> v \<noteq> Json JNull \<Longrightarrow> \<exists>w. get_prop v k = Inr w"
  unfolding get_prop_def
  by (simp split: jsval.split json.split option.split)

lemma descend_total: "\<exists>v. descend cur parts = Inr v"
proof (induction parts arbitrary: cur)
  case Nil
  show ?case by simp
next
  case (Cons part parts)
  show ?case
  proof (cases "cur = Json JNull \<or> cur = Undefined \<or> typeof cur \<noteq> ''object''")
    case True
    then show ?thesis by auto
  next
    case False
    then obtain w where "get_prop cur part = Inr w"
      using get_prop_total [of cur part] by auto
    with False Cons.IH [of w] show ?thesis by auto
  qed
qed

lemma descend_stops:
  "cur = Json JNull \<or> cur = Undefined \<or> typeof cur \<noteq> ''object'' \<Longrightarrow> parts \<noteq> []
     \<Longrightarrow> descend cur parts = Inr Undefined"
  by (cases parts) auto

lemma descend_Undefined: "descend Undefined parts = Inr Undefined"
  by (cases parts) auto

lemma descend_append:
  "descend cur pre = Inr v \<Longrightarrow> descend cur (pre @ post) = descend v post"
proof (induction pre arbitrary: cur)
  case Nil
  then show ?case by simp
next
  case (Cons part pre)
  show ?case
  proof (cases "cur = Json JNull \<or> cur = Undefined \<or> typeof cur \<noteq> ''object''")
    case True
    with Cons.prems have "v = Undefined" by (auto split: if_splits)
    with True show ?thesis by (auto simp: descend_Undefined)
  next
    case False
    with Cons show ?thesis by (auto split: sum.splits)
  qed
qed

lemma split_on_no_delim: "d \<notin> set s \<Longrightarrow> split_on d s = [s]"
  by (induction s) auto

lemma split_on_not_Nil: "split_on d s \<noteq> []"
  by (induction s) auto

lemma getNestedValue_descend:
  "\<not> falsy obj \<Longrightarrow> typeof obj = ''object'' \<Longrightarrow>
     getNestedValue obj path = descend obj (split_on CHR ''.'' path)"
  by (auto simp: getNestedValue_def split_on_no_delim falsy_def split: sum.splits)

lemma split_on_append:
  "d \<notin> set k \<Longrightarrow> split_on d (s @ d # k) = split_on d s @ [k]"
  by (induction s) (auto simp: split_on_no_delim split_on_not_Nil)


lemma digits_value_snoc: "digits_value (s @ [c]) = 10 * digits_value s + (of_char c - 48)"
  by (simp add: digits_value_def)

lemma digit_value: "d < 10 \<Longrightarrow> of_char (digit_char d) - 48 = d"
  by (simp add: digit_char_def)

lemma digits_value_show_nat: "digits_value (show_nat n) = n"
proof (induction n rule: show_nat.induct)
  case (1 n)
  show ?case
  proof (cases "n < 10")
    case True
    then show ?thesis
      using digits_value_snoc [of "[]" "digit_char n"]
      by (simp add: show_nat.simps [of n] digit_value digits_value_def)
  next
    case False
    with 1 show ?thesis
      by (simp add: show_nat.simps [of n] digits_value_snoc digit_value)
  qed
qed

lemma show_nat_inj: "show_nat i = show_nat j \<Longrightarrow> i = j"
  by (metis digits_value_show_nat)

lemma show_nat_no_dot: "CHR ''.'' \<notin> set (show_nat n)"
proof (induction n rule: show_nat.induct)
  case (1 n)
  have d: "digit_char k \<noteq> CHR ''.''" if "k < 10" for k
  proof
    assume "digit_char k = CHR ''.''"
    then have "(of_char (digit_char k) :: nat) = of_char CHR ''.''" by simp
    with that show False by (simp add: digit_char_def)
  qed
  show ?case
  proof (cases "n < 10")
    case True
    then show ?thesis using d [of n] by (simp add: show_nat.simps [of n])
  next
    case False
    with 1 d [of "n mod 10"] show ?thesis
      by (simp add: show_nat.simps [of n])
  qed
qed

lemma index_of_key_show_nat: "i < n \<Longrightarrow> index_of_key n (show_nat i) = Some i"
  unfolding index_of_key_def find_Some_iff
  by (rule exI [of _ i]) (auto dest: show_nat_inj)

text \<open>C6 (as amended). The lookup reads an array like any other object: when a path
  resolves to an array, the path extended by the decimal index of an element resolves to
  that element.\<close>

theorem array_elements_resolve:
  assumes "\<not> falsy config" and "typeof config = ''object''"
    and "getNestedValue config path = Inr (Json (JArr xs))" and "i < length xs"
  shows "getNestedValue config (path @ ''.'' @ show_nat i) = Inr (Json (xs ! i))"
proof -
  have "descend config (split_on CHR ''.'' path) = Inr (Json (JArr xs))"
    using assms by (simp add: getNestedValue_descend)
  then have "descend config (split_on CHR ''.'' path @ [show_nat i])
               = descend (Json (JArr xs)) [show_nat i]"
    by (rule descend_append)
  also have "\<dots> = Inr (Json (xs ! i))"
    using assms(4) by (simp add: typeof_def get_prop_def index_of_key_show_nat)
  finally show ?thesis
    using assms(1,2) by (simp add: getNestedValue_descend split_on_append show_nat_no_dot)
qed

lemma getNestedValue_total: "\<exists>v. getNestedValue obj path = Inr v"
proof (cases "falsy obj \<or> typeof obj \<noteq> ''object''")
  case True
  then show ?thesis by (auto simp: getNestedValue_def)
next
  case False
  then have "getNestedValue obj path = descend obj (split_on CHR ''.'' path)"
    by (simp add: getNestedValue_descend)
  then show ?thesis using descend_total by simp
qed

text \<open>C4 (as amended). \<^verbatim>\<open>getNestedValue\<close> never throws. A configuration that is not an object
  gives \<^verbatim>\<open>undefined\<close>. For an object the result is that of the descent, one segment of
  the dotted path at a time, and it is \<^verbatim>\<open>undefined\<close> as soon as the value reached before
  a segment is \<^verbatim>\<open>undefined\<close>, \<^verbatim>\<open>null\<close> or not an object, or the read of the segment gives
  \<^verbatim>\<open>undefined\<close>. Resolving \<^verbatim>\<open>a.b.c\<close> where \<^verbatim>\<open>config.a.b\<close> is a string gives \<^verbatim>\<open>undefined\<close>;
  resolving \<^verbatim>\<open>payment.amount\<close> gives the amount. A final value \<^verbatim>\<open>null\<close> is returned as
  \<^verbatim>\<open>null\<close>, not as \<^verbatim>\<open>undefined\<close>.\<close>

theorem getNestedValue_missing:
  "(\<exists>r. getNestedValue config path = Inr r)
   \<and> (falsy config \<or> typeof config \<noteq> ''object'' \<longrightarrow> getNestedValue config path = Inr Undefined)
   \<and> (\<not> falsy config \<and> typeof config = ''object'' \<longrightarrow>
        getNestedValue config path = descend config (split_on CHR ''.'' path))
   \<and> (\<not> falsy config \<and> typeof config = ''object''
        \<and> split_on CHR ''.'' path = pre @ seg # post \<and> descend config pre = Inr v
        \<and> (v = Undefined \<or> v = Json JNull \<or> typeof v \<noteq> ''object'' \<or> get_prop v seg = Inr Undefined)
        \<longrightarrow> getNestedValue config path = Inr Undefined)
   \<and> getNestedValue (Json (JObj [(''a'', JObj [(''b'', JStr ''text'')])])) ''a.b.c'' = Inr Undefined
   \<and> getNestedValue (Json (JObj [(''payment'', JObj [(''amount'', JStr ''$1,500'')])])) ''payment.amount''
       = Inr (Json (JStr ''$1,500''))"
proof (intro conjI impI)
  show "\<exists>r. getNestedValue config path = Inr r" by (rule getNestedValue_total)
  show "getNestedValue config path = Inr Undefined" if "falsy config \<or> typeof config \<noteq> ''object''"
    using that by (auto simp: getNestedValue_def)
  show "getNestedValue config path = descend config (split_on CHR ''.'' path)"
    if "\<not> falsy config \<and> typeof config = ''object''"
    using that by (simp add: getNestedValue_descend)
  show "getNestedValue config path = Inr Undefined"
    if h: "\<not> falsy config \<and> typeof config = ''object''
        \<and> split_on CHR ''.'' path = pre @ seg # post \<and> descend config pre = Inr v
        \<and> (v = Undefined \<or> v = Json JNull \<or> typeof v \<noteq> ''object'' \<or> get_prop v seg = Inr Undefined)"
  proof -
    from h have "getNestedValue config path = descend v (seg # post)"
      by (simp add: getNestedValue_descend descend_append)
    also from h have "\<dots> = Inr Undefined"
      by (auto simp: descend_Undefined)
    finally show ?thesis .
  qed
  show "getNestedValue (Json (JObj [(''a'', JObj [(''b'', JStr ''text'')])])) ''a.b.c'' = Inr Undefined"
    by (simp add: getNestedValue_def falsy_def typeof_def get_prop_def)
  show "getNestedValue (Json (JObj [(''payment'', JObj [(''amount'', JStr ''$1,500'')])])) ''payment.amount''
       = Inr (Json (JStr ''$1,500''))"
    by (simp add: getNestedValue_def falsy_def typeof_def get_prop_def)
qed

text \<open>C4 as stated fails: a final \<^verbatim>\<open>null\<close> is returned as \<^verbatim>\<open>null\<close>, and a key the
  configuration lacks but \<^verbatim>\<open>Object.prototype\<close> has is found there.\<close>

theorem getNestedValue_null_counterexample:
  "getNestedValue (Json (JObj [(''a'', JObj [(''b'', JNull)])])) ''a.b'' \<noteq> Inr Undefined
   \<and> getNestedValue (Json (JObj [])) ''constructor'' \<noteq> Inr Undefined"
  by (simp add: getNestedValue_def falsy_def typeof_def get_prop_def object_inherited_def
        object_prototype_own_def)

text \<open>C6 as stated fails: \<^verbatim>\<open>items.0\<close> resolves to the first element of the array.\<close>

theorem array_index_counterexample:
  "getNestedValue (Json (JObj [(''items'', JArr [JStr ''first'', JStr ''second''])])) ''items.0''
     = Inr (Json (JStr ''first''))"
  by code_simp

lemma validateSingleToken_reason:
  "validateSingleToken config token opts \<noteq> NotFound (''error accessing value: '' @ m)"
proof -
  obtain v where "getNestedValue config token = Inr v"
    using getNestedValue_total by blast
  then show ?thesis by (simp add: validateSingleToken_def)
qed


lemma preview_token_errors:
  "preview_errors (preview_token config pv t)
     = preview_errors pv @ (case caught_error config t of Some e \<Rightarrow> [(t, e)] | None \<Rightarrow> [])"
  by (simp add: preview_token_def caught_error_def split: sum.splits)

lemma preview_errors_foldl:
  "preview_errors (foldl (preview_token config) pv toks)
     = preview_errors pv @ List.map_filter (\<lambda>t. map_option (Pair t) (caught_error config t)) toks"
proof (induction toks arbitrary: pv)
  case Nil
  show ?case by (simp add: map_filter_simps)
next
  case (Cons t toks)
  show ?case
    by (simp add: Cons.IH map_filter_simps preview_token_errors split: option.splits)
qed

lemma caught_error_iff:
  "caught_error config token = Some e \<longleftrightarrow>
     e = type_error_message
     \<and> (\<exists>j. getNestedValue config token = Inr (Json j) \<and> j \<noteq> JNull \<and> \<not> converts j)"
proof -
  obtain v where v: "getNestedValue config token = Inr v"
    using getNestedValue_total by blast
  show ?thesis
    by (cases v) (auto simp: caught_error_def v to_string_def)
qed

text \<open>C10 (as amended). \<^verbatim>\<open>getNestedValue\<close> returns a value for every configuration and every
  token; \<^verbatim>\<open>validateSingleToken\<close> never gives the reason \<^verbatim>\<open>error accessing value\<close>. The
  errors of \<^verbatim>\<open>previewReplacements\<close> are the tokens whose \<^verbatim>\<open>try\<close> block catches an error, in
  order; the only error caught is the \<^verbatim>\<open>TypeError\<close> of the string conversion, for a value
  that is an object with an own \<^verbatim>\<open>toString\<close> property or an array holding one.\<close>

theorem lookup_never_throws:
  "(\<exists>v. getNestedValue config token = Inr v)
   \<and> (\<forall>m. validateSingleToken config token opts \<noteq> NotFound (''error accessing value: '' @ m))
   \<and> preview_errors (previewReplacements body config toks)
       = List.map_filter (\<lambda>t. map_option (Pair t) (caught_error config t))
           (case toks of None \<Rightarrow> extractTokens body | Some ts \<Rightarrow> ts)
   \<and> (caught_error config token = Some e \<longleftrightarrow>
        e = type_error_message
        \<and> (\<exists>j. getNestedValue config token = Inr (Json j) \<and> j \<noteq> JNull \<and> \<not> converts j))"
proof (intro conjI allI)
  show "\<exists>v. getNestedValue config token = Inr v"
    by (rule getNestedValue_total)
  show "validateSingleToken config token opts \<noteq> NotFound (''error accessing value: '' @ m)" for m
    by (rule validateSingleToken_reason)
  show "preview_errors (previewReplacements body config toks)
       = List.map_filter (\<lambda>t. map_option (Pair t) (caught_error config t))
           (case toks of None \<Rightarrow> extractTokens body | Some ts \<Rightarrow> ts)"
    by (simp add: previewReplacements_def preview_errors_foldl)
  show "caught_error config token = Some e \<longleftrightarrow>
        e = type_error_message
        \<and> (\<exists>j. getNestedValue config token = Inr (Json j) \<and> j \<noteq> JNull \<and> \<not> converts j)"
    by (rule caught_error_iff)
qed

text \<open>The theorem at a configuration whose value converts and at one whose value does not.\<close>

theorem lookup_never_throws_witness:
  "preview_errors (previewReplacements ''{{a}}'' (Json (JObj [(''a'', JStr ''x'')])) None) = []
   \<and> caught_error (Json (JObj [(''a'', JObj [(''toString'', JNum 1)])])) ''a'' = Some type_error_message"
proof -
  have e: "extractTokens ''{{a}}'' = [''a'']" by code_simp
  have c: "caught_error (Json (JObj [(''a'', JStr ''x'')])) ''a'' = None" by code_simp
  have g: "getNestedValue (Json (JObj [(''a'', JObj [(''toString'', JNum 1)])])) ''a''
             = Inr (Json (JObj [(''toString'', JNum 1)]))" by code_simp
  show ?thesis
    using lookup_never_throws [of "Json (JObj [(''a'', JStr ''x'')])" "''a''" default_validator_options
            "''{{a}}''" None type_error_message]
          lookup_never_throws [of "Json (JObj [(''a'', JObj [(''toString'', JNum 1)])])" "''a''"
            default_validator_options "[]" None type_error_message]
    by (simp add: e c g map_filter_simps)
qed

text \<open>C10 as stated fails: the preview of a token whose value is an object with an own
  \<^verbatim>\<open>toString\<close> property has an error.\<close>

theorem preview_errors_counterexample:
  "preview_errors (previewReplacements [] (Json (JObj [(''a'', JObj [(''toString'', JNum 1)])])) (Some [''a'']))
     = [(''a'', ''Cannot convert object to primitive value'')]"
  by code_simp

text \<open>The theorem at \<^verbatim>\<open>a.b.c\<close> below a string, and at a configuration that is a string.\<close>

theorem getNestedValue_missing_witness:
  "getNestedValue (Json (JObj [(''a'', JObj [(''b'', JStr ''text'')])])) ''a.b.c'' = Inr Undefined
   \<and> getNestedValue (Json (JStr ''text'')) ''a'' = Inr Undefined"
proof -
  let ?c = "Json (JObj [(''a'', JObj [(''b'', JStr ''text'')])])"
  have s: "split_on CHR ''.'' ''a.b.c'' = [''a'', ''b''] @ ''c'' # []" by simp
  have d: "descend ?c [''a'', ''b''] = Inr (Json (JStr ''text''))"
    by (simp add: typeof_def get_prop_def)
  have o: "\<not> falsy ?c \<and> typeof ?c = ''object''" by (simp add: falsy_def typeof_def)
  have t: "typeof (Json (JStr ''text'')) \<noteq> ''object''" by (simp add: typeof_def)
  show ?thesis
    using getNestedValue_missing [of ?c "''a.b.c''" "[''a'', ''b'']" "''c''" "[]" "Json (JStr ''text'')"]
          getNestedValue_missing [of "Json (JStr ''text'')" "''a''" "[]" "''a''" "[]" Undefined]
          s d o t
    by simp
qed

text \<open>The theorem at \<^verbatim>\<open>items.1\<close>.\<close>

theorem array_elements_resolve_witness:
  "getNestedValue (Json (JObj [(''items'', JArr [JStr ''first'', JStr ''second''])])) (''items'' @ ''.'' @ show_nat 1)
     = Inr (Json (JStr ''second''))"
proof -
  let ?c = "Json (JObj [(''items'', JArr [JStr ''first'', JStr ''second''])])"
  have o: "\<not> falsy ?c" "typeof ?c = ''object''" by (simp_all add: falsy_def typeof_def)
  have g: "getNestedValue ?c ''items'' = Inr (Json (JArr [JStr ''first'', JStr ''second'']))"
    by (simp add: getNestedValue_def falsy_def typeof_def get_prop_def)
  show ?thesis
    using array_elements_resolve [OF o g, of 1] by simp
qed

section \<open>Properties of the replacement loop\<close>

lemma handleMissingToken_message:
  "fst (handleMissingToken token opts warns (caught_error config token))
     = warns @ [missing_message config token]"
  by (simp add: handleMissingToken_def missing_message_def Let_def split: option.splits)

lemma replace_missing_warnings:
  "snd (replace_missing re token opts st (caught_error config token))
     = snd st @ [missing_message config token]"
  using handleMissingToken_message [of token opts "snd st" config]
  by (cases "handleMissingToken token opts (snd st) (caught_error config token)")
     (simp add: replace_missing_def)

lemma replace_missing_fail:
  "errorHandling opts = ''fail'' \<Longrightarrow> fst (replace_missing re token opts st err) = fst st"
  by (simp add: replace_missing_def handleMissingToken_def Let_def)

lemma replace_missing_policy:
  "errorHandling o1 \<in> {''warn'', ''graceful''} \<Longrightarrow> errorHandling o2 \<in> {''warn'', ''graceful''} \<Longrightarrow>
   missingTokenPlaceholder o1 = missingTokenPlaceholder o2 \<Longrightarrow>
   replace_missing re token o1 st err = replace_missing re token o2 st err"
  by (auto simp: replace_missing_def handleMissingToken_def Let_def)

lemma replace_token_cases:
  "engine (token_pattern t) = Inr re \<Longrightarrow>
   replace_token engine config opts st t
     = Inr (case substitutes config t of
              Some s \<Rightarrow> (re (fst st) s, snd st)
            | None \<Rightarrow> replace_missing re t opts st (caught_error config t))"
  by (simp add: replace_token_def substitutes_def caught_error_def split: sum.splits)

lemma replace_token_syntax_error:
  "engine (token_pattern t) = Inl e \<Longrightarrow> replace_token engine config opts st t = Inl e"
  by (simp add: replace_token_def)

lemma replace_token_policy:
  assumes "errorHandling o1 \<in> {''warn'', ''graceful''}" "errorHandling o2 \<in> {''warn'', ''graceful''}"
    and "missingTokenPlaceholder o1 = missingTokenPlaceholder o2"
  shows "replace_token engine config o1 st t = replace_token engine config o2 st t"
proof (cases "engine (token_pattern t)")
  case (Inl e)
  then show ?thesis by (simp add: replace_token_syntax_error)
next
  case (Inr re)
  then show ?thesis
    using replace_missing_policy [OF assms]
    by (simp add: replace_token_cases split: option.splits)
qed

lemma replace_loop_policy:
  assumes "errorHandling o1 \<in> {''warn'', ''graceful''}" "errorHandling o2 \<in> {''warn'', ''graceful''}"
    and "missingTokenPlaceholder o1 = missingTokenPlaceholder o2"
  shows "replace_loop engine config o1 st toks = replace_loop engine config o2 st toks"
proof (induction toks arbitrary: st)
  case Nil
  show ?case by simp
next
  case (Cons t toks)
  show ?case
    using replace_token_policy [OF assms, of engine config st t] Cons.IH
    by (simp split: sum.splits)
qed

lemma replace_loop_warnings:
  "replace_loop engine config opts st toks = Inr st' \<Longrightarrow>
   snd st' = snd st @ map (missing_message config) (filter (\<lambda>t. substitutes config t = None) toks)"
proof (induction toks arbitrary: st)
  case Nil
  then show ?case by simp
next
  case (Cons t toks)
  from Cons.prems obtain re where re: "engine (token_pattern t) = Inr re"
    by (cases "engine (token_pattern t)") (auto simp: replace_token_syntax_error)
  let ?st1 = "case substitutes config t of
                Some s \<Rightarrow> (re (fst st) s, snd st)
              | None \<Rightarrow> replace_missing re t opts st (caught_error config t)"
  from Cons.prems have "replace_loop engine config opts ?st1 toks = Inr st'"
    by (simp add: replace_token_cases [where engine = engine and t = t, OF re])
  from Cons.IH [OF this] show ?case
    by (simp add: replace_missing_warnings split: option.splits)
qed

lemma replace_loop_total:
  "\<forall>t\<in>set toks. \<exists>re. engine (token_pattern t) = Inr re \<Longrightarrow>
   \<exists>st'. replace_loop engine config opts st toks = Inr st'"
proof (induction toks arbitrary: st)
  case Nil
  show ?case by simp
next
  case (Cons t toks)
  then obtain re where re: "engine (token_pattern t) = Inr re" by auto
  show ?case
    using Cons by (simp add: replace_token_cases [where engine = engine and t = t, OF re])
qed

lemma replace_loop_fail_text:
  assumes "errorHandling opts = ''fail''"
  shows "replace_loop engine config opts (r, w) toks = Inr (r', w') \<Longrightarrow>
         replace_loop engine config opts (r, w0) (filter (\<lambda>t. substitutes config t \<noteq> None) toks)
           = Inr (r', w0)"
proof (induction toks arbitrary: r w w0)
  case Nil
  then show ?case by simp
next
  case (Cons t toks)
  from Cons.prems obtain re where re: "engine (token_pattern t) = Inr re"
    by (cases "engine (token_pattern t)") (auto simp: replace_token_syntax_error)
  note step = replace_token_cases [where engine = engine and t = t, OF re]
  show ?case
  proof (cases "substitutes config t")
    case None
    obtain w1 where st1: "replace_missing re t opts (r, w) (caught_error config t) = (r, w1)"
      using replace_missing_fail [OF assms, of re t "(r, w)" "caught_error config t"]
      by (cases "replace_missing re t opts (r, w) (caught_error config t)") simp
    from Cons.prems None st1 have "replace_loop engine config opts (r, w1) toks = Inr (r', w')"
      by (simp add: step)
    from Cons.IH [OF this, of w0] None show ?thesis by simp
  next
    case (Some s)
    from Cons.prems Some have "replace_loop engine config opts (re r s, w) toks = Inr (r', w')"
      by (simp add: step)
    from Cons.IH [OF this, of w0] Some show ?thesis by (simp add: step)
  qed
qed


lemma replaceTokens_policy_text:
  "map_sum id fst (replaceTokens engine body config tokens (opts \<lparr> errorHandling := ''warn'' \<rparr>))
     = map_sum id fst (replaceTokens engine body config tokens (opts \<lparr> errorHandling := ''graceful'' \<rparr>))"
proof -
  have "replace_loop engine config (opts \<lparr> errorHandling := ''warn'' \<rparr>) st toks
          = replace_loop engine config (opts \<lparr> errorHandling := ''graceful'' \<rparr>) st toks" for st toks
    by (rule replace_loop_policy) simp_all
  then show ?thesis
    by (simp add: replaceTokens_def split: sum.splits prod.splits)
qed

lemma replaceTokens_graceful_silent:
  "replaceTokens engine body config tokens (opts \<lparr> errorHandling := ''graceful'' \<rparr>) = Inr (r, ws)
     \<Longrightarrow> ws = []"
  by (auto simp: replaceTokens_def Let_def split: sum.splits prod.splits if_splits)

lemma name_pattern:
  "interpret_pattern (token_pattern ''name'')
     = Some (\<lambda>subject replacement.
          replace_from [One (Lit CHR ''{''), One (Lit CHR ''{''), Star Space,
                        One (Lit CHR ''n''), One (Lit CHR ''a''), One (Lit CHR ''m''), One (Lit CHR ''e''),
                        Star Space, One (Lit CHR ''}''), One (Lit CHR ''}'')] replacement [] subject)"
proof -
  have "parse_items (token_pattern ''name'')
          = Some [One (Lit CHR ''{''), One (Lit CHR ''{''), Star Space,
                  One (Lit CHR ''n''), One (Lit CHR ''a''), One (Lit CHR ''m''), One (Lit CHR ''e''),
                  Star Space, One (Lit CHR ''}''), One (Lit CHR ''}'')]"
    by code_simp
  then show ?thesis by (simp add: interpret_pattern_def)
qed

lemma hi_name_replaced:
  "replace_from [One (Lit CHR ''{''), One (Lit CHR ''{''), Star Space,
                 One (Lit CHR ''n''), One (Lit CHR ''a''), One (Lit CHR ''m''), One (Lit CHR ''e''),
                 Star Space, One (Lit CHR ''}''), One (Lit CHR ''}'')] ''[MISSING]'' [] ''Hi {{name}}''
     = ''Hi [MISSING]''"
  by code_simp

lemma hi_name_loop:
  assumes "conforms engine" and "errorHandling opts \<in> {''warn'', ''graceful''}"
    and "missingTokenPlaceholder opts = ''[MISSING]''"
  shows "replace_loop engine (Json (JObj [])) opts (''Hi {{name}}'', []) (extractTokens ''Hi {{name}}'')
           = Inr (''Hi [MISSING]'', [''Token '' @ [apostrophe] @ ''name'' @ [apostrophe] @ '' not found in config''])"
proof -
  have e: "extractTokens ''Hi {{name}}'' = [''name'']" by code_simp
  have g: "getNestedValue (Json (JObj [])) ''name'' = Inr Undefined" by code_simp
  have re: "engine (token_pattern ''name'') = Inr (\<lambda>subject replacement.
          replace_from [One (Lit CHR ''{''), One (Lit CHR ''{''), Star Space,
                        One (Lit CHR ''n''), One (Lit CHR ''a''), One (Lit CHR ''m''), One (Lit CHR ''e''),
                        Star Space, One (Lit CHR ''}''), One (Lit CHR ''}'')] replacement [] subject)"
    using assms(1) name_pattern by (simp add: conforms_def)
  show ?thesis
    using assms(2,3)
    by (auto simp: e re g replace_token_def replace_missing_def handleMissingToken_def Let_def
          hi_name_replaced)
qed

text \<open>C5. With an engine that conforms, the text \<^verbatim>\<open>Hi {{name}}\<close> and the empty configuration give
  \<^verbatim>\<open>Hi [MISSING]\<close> under \<^verbatim>\<open>warn\<close>, with the one warning about \<^verbatim>\<open>name\<close>, and the same text
  without a warning under \<^verbatim>\<open>graceful\<close>. For every engine, content, configuration, token list
  and other options the two policies throw the same error or return the same text, and
  \<^verbatim>\<open>graceful\<close> never prints a warning.\<close>

theorem warn_and_graceful:
  "(conforms engine \<longrightarrow>
      replaceTokens engine ''Hi {{name}}'' (Json (JObj [])) None
          (default_replacer_options \<lparr> errorHandling := ''warn'' \<rparr>)
        = Inr (''Hi [MISSING]'',
               [''Token '' @ [apostrophe] @ ''name'' @ [apostrophe] @ '' not found in config''])
      \<and> replaceTokens engine ''Hi {{name}}'' (Json (JObj [])) None
          (default_replacer_options \<lparr> errorHandling := ''graceful'' \<rparr>)
        = Inr (''Hi [MISSING]'', []))
   \<and> map_sum id fst (replaceTokens engine body config tokens (opts \<lparr> errorHandling := ''warn'' \<rparr>))
       = map_sum id fst (replaceTokens engine body config tokens (opts \<lparr> errorHandling := ''graceful'' \<rparr>))
   \<and> (\<forall>r ws. replaceTokens engine body config tokens (opts \<lparr> errorHandling := ''graceful'' \<rparr>)
                = Inr (r, ws) \<longrightarrow> ws = [])"
proof (intro conjI impI allI)
  assume c: "conforms engine"
  show "replaceTokens engine ''Hi {{name}}'' (Json (JObj [])) None
          (default_replacer_options \<lparr> errorHandling := ''warn'' \<rparr>)
        = Inr (''Hi [MISSING]'',
               [''Token '' @ [apostrophe] @ ''name'' @ [apostrophe] @ '' not found in config''])"
    using hi_name_loop [OF c, of "default_replacer_options \<lparr> errorHandling := ''warn'' \<rparr>"]
    by (simp add: replaceTokens_def default_replacer_options_def)
  show "replaceTokens engine ''Hi {{name}}'' (Json (JObj [])) None
          (default_replacer_options \<lparr> errorHandling := ''graceful'' \<rparr>)
        = Inr (''Hi [MISSING]'', [])"
    using hi_name_loop [OF c, of "default_replacer_options \<lparr> errorHandling := ''graceful'' \<rparr>"]
    by (simp add: replaceTokens_def default_replacer_options_def)
next
  show "map_sum id fst (replaceTokens engine body config tokens (opts \<lparr> errorHandling := ''warn'' \<rparr>))
       = map_sum id fst (replaceTokens engine body config tokens (opts \<lparr> errorHandling := ''graceful'' \<rparr>))"
    by (rule replaceTokens_policy_text)
next
  fix r ws
  assume "replaceTokens engine body config tokens (opts \<lparr> errorHandling := ''graceful'' \<rparr>) = Inr (r, ws)"
  then show "ws = []" by (rule replaceTokens_graceful_silent)
qed

lemma conforms_reference_engine: "conforms reference_engine"
  by (simp add: conforms_def reference_engine_def)

text \<open>The theorem at the reference engine.\<close>

theorem warn_and_graceful_witness:
  "replaceTokens reference_engine ''Hi {{name}}'' (Json (JObj [])) None
          (default_replacer_options \<lparr> errorHandling := ''warn'' \<rparr>)
        = Inr (''Hi [MISSING]'',
               [''Token '' @ [apostrophe] @ ''name'' @ [apostrophe] @ '' not found in config''])
   \<and> replaceTokens reference_engine ''Hi {{name}}'' (Json (JObj [])) None
          (default_replacer_options \<lparr> errorHandling := ''graceful'' \<rparr>)
        = Inr (''Hi [MISSING]'', [])"
  using warn_and_graceful [of reference_engine "[]" Undefined None default_replacer_options]
        conforms_reference_engine
  by blast


text \<open>Under the policy \<^verbatim>\<open>fail\<close>, when an expression can be built for every token and
  at least one token is not substituted, \<^verbatim>\<open>replaceTokens\<close> throws, and the message lists the
  warning of every token that is not substituted, in the order of the pass. The text the
  loop has reached at that point is the content with the substituted tokens replaced and
  nothing else: no placeholder has been written.\<close>

theorem fail_policy_lists_every_missing_token:
  assumes "toks = (case tokens of None \<Rightarrow> extractTokens body | Some ts \<Rightarrow> ts)"
    and "\<forall>t\<in>set toks. \<exists>re. engine (token_pattern t) = Inr re"
    and "errorHandling opts = ''fail''"
    and "\<exists>t\<in>set toks. substitutes config t = None"
  shows "replaceTokens engine body config tokens opts
           = Inl (''Token replacement failed:'' @ [CHR 0x0A]
                  @ join [CHR 0x0A]
                      (map (missing_message config) (filter (\<lambda>t. substitutes config t = None) toks)))
         \<and> (\<exists>result.
               replace_loop engine config opts (body, []) toks
                 = Inr (result, map (missing_message config) (filter (\<lambda>t. substitutes config t = None) toks))
               \<and> replace_loop engine config opts (body, [])
                     (filter (\<lambda>t. substitutes config t \<noteq> None) toks)
                 = Inr (result, []))"
proof -
  let ?ms = "map (missing_message config) (filter (\<lambda>t. substitutes config t = None) toks)"
  obtain result ws where loop: "replace_loop engine config opts (body, []) toks = Inr (result, ws)"
    using replace_loop_total [OF assms(2), of config opts "(body, [])"] by auto
  have ws: "ws = ?ms"
    using replace_loop_warnings [OF loop] by simp
  have ne: "?ms \<noteq> []"
    using assms(4) by (auto simp: filter_empty_conv)
  have kept: "replace_loop engine config opts (body, [])
                (filter (\<lambda>t. substitutes config t \<noteq> None) toks) = Inr (result, [])"
    using replace_loop_fail_text [OF assms(3) loop] .
  have "replaceTokens engine body config tokens opts
          = Inl (''Token replacement failed:'' @ [CHR 0x0A] @ join [CHR 0x0A] ?ms)"
    using loop ws ne assms(1,3) by (simp add: replaceTokens_def)
  with loop ws kept show ?thesis by blast
qed

text \<open>The theorem at three markers of which the second has a value.\<close>

theorem fail_policy_lists_every_missing_token_witness:
  "replaceTokens reference_engine ''{{a}} {{b}} {{c}}'' (Json (JObj [(''b'', JStr ''x'')])) None
       (default_replacer_options \<lparr> errorHandling := ''fail'' \<rparr>)
     = Inl (''Token replacement failed:'' @ [CHR 0x0A]
            @ ''Token '' @ [apostrophe] @ ''a'' @ [apostrophe] @ '' not found in config'' @ [CHR 0x0A]
            @ ''Token '' @ [apostrophe] @ ''c'' @ [apostrophe] @ '' not found in config'')
   \<and> replace_loop reference_engine (Json (JObj [(''b'', JStr ''x'')]))
         (default_replacer_options \<lparr> errorHandling := ''fail'' \<rparr>) (''{{a}} {{b}} {{c}}'', [])
         [''b''] = Inr (''{{a}} x {{c}}'', [])"
proof -
  let ?cfg = "Json (JObj [(''b'', JStr ''x'')])"
  let ?opts = "default_replacer_options \<lparr> errorHandling := ''fail'' \<rparr>"
  have e: "extractTokens ''{{a}} {{b}} {{c}}'' = [''a'', ''b'', ''c'']" by code_simp
  have re: "\<not> isl (reference_engine (token_pattern ''a''))"
    "\<not> isl (reference_engine (token_pattern ''b''))"
    "\<not> isl (reference_engine (token_pattern ''c''))"
    by code_simp+
  have eng: "\<forall>t\<in>set [''a'', ''b'', ''c'']. \<exists>re. reference_engine (token_pattern t) = Inr re"
    using re by (auto simp: isl_def) (metis sum.exhaust)+
  have s: "substitutes ?cfg ''a'' = None" "substitutes ?cfg ''b'' = Some ''x''"
    "substitutes ?cfg ''c'' = None"
    by code_simp+
  have m: "missing_message ?cfg ''a'' = ''Token '' @ [apostrophe] @ ''a'' @ [apostrophe] @ '' not found in config''"
    "missing_message ?cfg ''c'' = ''Token '' @ [apostrophe] @ ''c'' @ [apostrophe] @ '' not found in config''"
    by code_simp+
  have f: "errorHandling ?opts = ''fail''" by simp
  have x: "\<exists>t\<in>set [''a'', ''b'', ''c'']. substitutes ?cfg t = None" using s by simp
  have l: "replace_loop reference_engine ?cfg ?opts (''{{a}} {{b}} {{c}}'', []) [''b'']
             = Inr (''{{a}} x {{c}}'', [])"
    by code_simp
  have t: "[''a'', ''b'', ''c''] = (case None of None \<Rightarrow> extractTokens ''{{a}} {{b}} {{c}}'' | Some ts \<Rightarrow> ts)"
    using e by simp
  have flt: "filter (\<lambda>t. substitutes ?cfg t = None) [''a'', ''b'', ''c''] = [''a'', ''c'']"
    by (simp add: s)
  note th = fail_policy_lists_every_missing_token [OF t eng f x]
  show ?thesis
  proof (intro conjI)
    show "replaceTokens reference_engine ''{{a}} {{b}} {{c}}'' ?cfg None ?opts
     = Inl (''Token replacement failed:'' @ [CHR 0x0A]
            @ ''Token '' @ [apostrophe] @ ''a'' @ [apostrophe] @ '' not found in config'' @ [CHR 0x0A]
            @ ''Token '' @ [apostrophe] @ ''c'' @ [apostrophe] @ '' not found in config'')"
      using th by (simp add: s m)
    show "replace_loop reference_engine ?cfg ?opts (''{{a}} {{b}} {{c}}'', []) [''b'']
            = Inr (''{{a}} x {{c}}'', [])"
      by (rule l)
  qed
qed


section \<open>Properties of the validator\<close>

lemma check_token_found:
  "map fst (found (check_token config opts r t))
     = map fst (found r) @ (if \<exists>v. validateSingleToken config t opts = Found v then [t] else [])"
  by (cases "validateSingleToken config t opts") (simp_all add: check_token_def Let_def)

lemma foldl_check_token_found:
  "map fst (found (foldl (check_token config opts) r toks))
     = map fst (found r) @ filter (\<lambda>t. \<exists>v. validateSingleToken config t opts = Found v) toks"
  by (induction toks arbitrary: r) (simp_all add: check_token_found)

lemma validateAgainstTokens_found:
  "validateAgainstTokens config toks opts = Inr report \<Longrightarrow>
   map fst (found report) = filter (\<lambda>t. \<exists>v. validateSingleToken config t opts = Found v) toks"
  using foldl_check_token_found [of config opts empty_report toks]
  by (auto simp: validateAgainstTokens_def Let_def empty_report_def split: if_splits sum.splits)

lemma validator_found_iff:
  "(\<exists>v. validateSingleToken config t opts = Found v) \<longleftrightarrow>
   (\<exists>v. getNestedValue config t = Inr v \<and> v \<noteq> Undefined \<and> v \<noteq> Json JNull
        \<and> (allowEmpty opts \<or> v \<noteq> Json (JStr [])))"
proof -
  obtain v where v: "getNestedValue config t = Inr v"
    using getNestedValue_total by blast
  show ?thesis by (auto simp: validateSingleToken_def v)
qed

lemma substitutes_iff:
  "substitutes config t \<noteq> None \<longleftrightarrow>
   (\<exists>v. getNestedValue config t = Inr v \<and> v \<noteq> Undefined \<and> v \<noteq> Json JNull)
   \<and> caught_error config t = None"
proof -
  obtain v where v: "getNestedValue config t = Inr v"
    using getNestedValue_total by blast
  show ?thesis by (auto simp: substitutes_def caught_error_def v split: sum.splits)
qed

section \<open>Properties of the batch\<close>

lemma record_result_fields:
  "processed (record_result b r) = processed b @ (if success r then [r] else [])"
  "failed (record_result b r) = failed b @ (if success r then [] else [r])"
  "summary_total (record_result b r) = summary_total b"
  "summary_successful (record_result b r) = summary_successful b + (if success r then 1 else 0)"
  "summary_failed (record_result b r) = summary_failed b + (if success r then 0 else 1)"
  "batch_success (record_result b r) = (batch_success b \<and> success r)"
  by (cases r; simp add: record_result_def)+

lemma process_each_fields:
  assumes "process_each resolve engine fs config opts (b, cache) paths = (b', cache')"
  shows "processed b' = processed b @ filter success (results_of resolve engine fs config opts cache paths)
       \<and> failed b' = failed b @ filter (\<lambda>r. \<not> success r) (results_of resolve engine fs config opts cache paths)
       \<and> summary_total b' = summary_total b
       \<and> summary_successful b'
           = summary_successful b + length (filter success (results_of resolve engine fs config opts cache paths))
       \<and> summary_failed b'
           = summary_failed b + length (filter (\<lambda>r. \<not> success r) (results_of resolve engine fs config opts cache paths))
       \<and> (batch_success b' \<longleftrightarrow>
            batch_success b \<and> (\<forall>r\<in>set (results_of resolve engine fs config opts cache paths). success r))"
  using assms
proof (induction paths arbitrary: b cache)
  case Nil
  then show ?case by simp
next
  case (Cons p paths)
  obtain r c1 where step: "processTemplate resolve engine fs cache p config opts = (r, c1)"
    by (cases "processTemplate resolve engine fs cache p config opts")
  with Cons.prems have "process_each resolve engine fs config opts (record_result b r, c1) paths = (b', cache')"
    by simp
  from Cons.IH [OF this] show ?case
    by (auto simp: step record_result_fields)
qed

lemma validate_and_replace_path:
  "result_path (validate_and_replace engine templatePath templateContent toks config opts) = templatePath"
  by (simp add: validate_and_replace_def split: sum.splits prod.splits)

lemma processTemplate_path:
  "result_path (fst (processTemplate resolve engine fs cache templatePath config opts)) = templatePath"
  by (simp add: processTemplate_def validate_and_replace_path split: sum.splits prod.splits)

lemma results_of_paths:
  "map result_path (results_of resolve engine fs config opts cache paths) = paths"
proof (induction paths arbitrary: cache)
  case Nil
  show ?case by simp
next
  case (Cons p paths)
  show ?case
    using processTemplate_path [of resolve engine fs cache p config opts] Cons.IH
    by (cases "processTemplate resolve engine fs cache p config opts") simp
qed

lemma three_files_example:
  "(let example = fst (processMultipleTemplates (\<lambda>p. p) reference_engine three_files Map.empty
     [''a.html'', ''b.html'', ''c.html''] (Json (JObj [(''name'', JStr ''Ann'')])) default_processor_options)
          in summary_total example = 3 \<and> summary_successful example = 2 \<and> summary_failed example = 1
       \<and> \<not> batch_success example
       \<and> map content (processed example) = [''Hi Ann'', ''Bye Ann'']
       \<and> map result_path (failed example) = [''b.html''])"
  by code_simp

text \<open>C3. \<^verbatim>\<open>processMultipleTemplates\<close> runs \<^verbatim>\<open>processTemplate\<close> on every path, in order, whatever
  the earlier ones gave: the results \<open>rs\<close> are one per path; the successful ones form
  \<^verbatim>\<open>processed\<close> and the others \<^verbatim>\<open>failed\<close>; \<^verbatim>\<open>summary.total\<close> is the number of paths, the two
  other counts are the lengths of the two lists and add up to the total; the batch succeeds
  exactly when every result does. Three paths of which the second names no file give
  total 3, successful 2, failed 1.\<close>

theorem batch_attempts_every_input:
  assumes "processMultipleTemplates resolve engine fs cache paths config opts = (batch, cache')"
    and "rs = results_of resolve engine fs config opts cache paths"
  shows "map result_path rs = paths
       \<and> processed batch = filter success rs
       \<and> failed batch = filter (\<lambda>r. \<not> success r) rs
       \<and> summary_total batch = length paths
       \<and> summary_successful batch = length (processed batch)
       \<and> summary_failed batch = length (failed batch)
       \<and> summary_successful batch + summary_failed batch = summary_total batch
       \<and> (batch_success batch \<longleftrightarrow> (\<forall>r\<in>set rs. success r))
       \<and> (let example = fst (processMultipleTemplates (\<lambda>p. p) reference_engine three_files Map.empty
                 [''a.html'', ''b.html'', ''c.html''] (Json (JObj [(''name'', JStr ''Ann'')]))
                 default_processor_options)
          in summary_total example = 3 \<and> summary_successful example = 2 \<and> summary_failed example = 1
             \<and> \<not> batch_success example
             \<and> map content (processed example) = [''Hi Ann'', ''Bye Ann'']
             \<and> map result_path (failed example) = [''b.html''])"
proof -
  have len: "length rs = length paths"
    using results_of_paths [of resolve engine fs config opts cache paths] assms(2)
    by (metis length_map)
  have "length (filter success rs) + length (filter (\<lambda>r. \<not> success r) rs) = length rs"
    by (rule sum_length_filter_compl)
  with len process_each_fields [OF assms(1) [unfolded processMultipleTemplates_def]]
    results_of_paths [of resolve engine fs config opts cache paths] assms(2)
  show ?thesis using three_files_example by simp
qed


text \<open>The theorem at the three paths.\<close>

theorem batch_attempts_every_input_witness:
  "(let batch = fst (processMultipleTemplates (\<lambda>p. p) reference_engine three_files Map.empty
       [''a.html'', ''b.html'', ''c.html''] (Json (JObj [(''name'', JStr ''Ann'')])) default_processor_options)
    in summary_total batch = length [''a.html'', ''b.html'', ''c.html'']
       \<and> summary_successful batch + summary_failed batch = summary_total batch
       \<and> summary_successful batch = length (processed batch)
       \<and> summary_failed batch = length (failed batch))"
proof -
  let ?run = "processMultipleTemplates (\<lambda>p. p) reference_engine three_files Map.empty
       [''a.html'', ''b.html'', ''c.html''] (Json (JObj [(''name'', JStr ''Ann'')])) default_processor_options"
  have "?run = (fst ?run, snd ?run)" by simp
  note th = batch_attempts_every_input [OF this refl]
  note rest = th [THEN conjunct2, THEN conjunct2, THEN conjunct2]
  have total: "summary_total (fst ?run) = length [''a.html'', ''b.html'', ''c.html'']"
    by (rule rest [THEN conjunct1])
  have successful: "summary_successful (fst ?run) = length (processed (fst ?run))"
    by (rule rest [THEN conjunct2, THEN conjunct1])
  have failures: "summary_failed (fst ?run) = length (failed (fst ?run))"
    by (rule rest [THEN conjunct2, THEN conjunct2, THEN conjunct1])
  have sum: "summary_successful (fst ?run) + summary_failed (fst ?run) = summary_total (fst ?run)"
    by (rule rest [THEN conjunct2, THEN conjunct2, THEN conjunct2, THEN conjunct1])
  show ?thesis
    unfolding Let_def using total sum successful failures by (intro conjI)
qed

section \<open>Properties of the unused paths\<close>

lemma join_snoc: "join sep (xs @ [x]) = (if xs = [] then x else join sep xs @ sep @ x)"
  by (induction sep xs rule: join.induct) auto

lemma join_nonempty: "xs \<noteq> [] \<Longrightarrow> join ''.'' (xs @ [x]) \<noteq> []"
  by (simp add: join_snoc)

lemma no_shadowing_keys: "no_shadowing kvs \<Longrightarrow> ''hasOwnProperty'' \<notin> fst ` set kvs"
  by (induction kvs rule: no_shadowing.induct) auto

lemma config_paths_leaf_paths:
  "no_shadowing kvs \<Longrightarrow> (pre \<noteq> [] \<longrightarrow> join ''.'' pre \<noteq> []) \<Longrightarrow>
   (pre = [] \<longrightarrow> (\<forall>(k, v) \<in> set kvs. k = [] \<longrightarrow> (\<forall>x. v \<noteq> JObj x))) \<Longrightarrow>
   config_paths True kvs (join ''.'' pre)
     = Inr (map (\<lambda>p. join ''.'' (pre @ p)) (leaf_paths kvs))"
proof (induction kvs arbitrary: pre rule: leaf_paths.induct)
  case 1
  show ?case by simp
next
  case (2 k v rest)
  have cur: "(if join ''.'' pre \<noteq> [] then join ''.'' pre @ ''.'' @ k else k) = join ''.'' (pre @ [k])"
    using "2.prems"(2) by (cases "pre = []") (simp_all add: join_snoc)
  have rest: "config_paths True rest (join ''.'' pre)
                = Inr (map (\<lambda>p. join ''.'' (pre @ p)) (leaf_paths rest))"
    using "2.prems" by (intro "2.IH"(2)) auto
  show ?case
  proof (cases v)
    case (JObj inner)
    have ne: "join ''.'' (pre @ [k]) \<noteq> []"
    proof (cases "pre = []")
      case True
      with "2.prems"(3) JObj have "k \<noteq> []" by auto
      with True show ?thesis by simp
    next
      case False
      then show ?thesis by (rule join_nonempty)
    qed
    have "config_paths True inner (join ''.'' (pre @ [k]))
            = Inr (map (\<lambda>p. join ''.'' ((pre @ [k]) @ p)) (leaf_paths inner))"
      using "2.prems"(1) JObj ne by (intro "2.IH"(1)) auto
    with rest cur JObj "2.prems"(1) show ?thesis
      by (simp add: no_shadowing_keys Let_def o_def)
  qed (use rest cur in \<open>simp_all add: Let_def\<close>)
qed

lemma getAllConfigPaths_leaf_paths:
  assumes "no_shadowing kvs" and "\<forall>(k, v) \<in> set kvs. k = [] \<longrightarrow> (\<forall>x. v \<noteq> JObj x)"
  shows "getAllConfigPaths (Json (JObj kvs)) = Inr (map (join ''.'') (leaf_paths kvs))"
  using config_paths_leaf_paths [of kvs "[]"] assms
  by (simp add: getAllConfigPaths_def enumerable_properties_def no_shadowing_keys)

lemma validateSingleToken_ignores_warnOnUnused:
  "validateSingleToken config t (opts \<lparr> warnOnUnused := b \<rparr>) = validateSingleToken config t opts"
  by (simp add: validateSingleToken_def split: sum.splits)

lemma check_token_ignores_warnOnUnused:
  "check_token config (opts \<lparr> warnOnUnused := b \<rparr>) r t = check_token config opts r t"
  by (simp add: check_token_def validateSingleToken_ignores_warnOnUnused
        split: token_validation.splits)

lemma foldl_check_token_ignores_warnOnUnused:
  "foldl (check_token config (opts \<lparr> warnOnUnused := b \<rparr>)) r toks
     = foldl (check_token config opts) r toks"
  by (induction toks arbitrary: r) (simp_all add: check_token_ignores_warnOnUnused)

lemma validateAgainstTokens_unused:
  assumes "validateAgainstTokens config toks (opts \<lparr> warnOnUnused := True \<rparr>) = Inr report"
  shows "\<exists>paths. getAllConfigPaths config = Inr paths \<and> unused report = filter (\<lambda>p. p \<notin> set toks) paths"
    and "validateAgainstTokens config toks (opts \<lparr> warnOnUnused := False \<rparr>)
           = Inr (foldl (check_token config opts) empty_report toks)"
    and "valid report = valid (foldl (check_token config opts) empty_report toks)"
  using assms
  by (auto simp: validateAgainstTokens_def Let_def findUnusedConfigValues_def
        foldl_check_token_ignores_warnOnUnused split: sum.splits if_splits)


lemma config_paths_total:
  "no_shadowing kvs \<Longrightarrow> \<exists>ps. config_paths True kvs prefix = Inr ps"
proof (induction kvs arbitrary: prefix rule: leaf_paths.induct)
  case 1
  show ?case by simp
next
  case (2 k v rest)
  from "2.prems" obtain others where rest: "config_paths True rest prefix = Inr others"
    using "2.IH"(2) [of prefix] by auto
  show ?case
  proof (cases v)
    case (JObj inner)
    with "2.prems" obtain ps where
      "config_paths True inner (if prefix \<noteq> [] then prefix @ ''.'' @ k else k) = Inr ps"
      using "2.IH"(1) [of inner "if prefix \<noteq> [] then prefix @ ''.'' @ k else k"] by auto
    with rest JObj "2.prems" show ?thesis
      by (simp add: no_shadowing_keys Let_def)
  qed (use rest in \<open>simp_all add: Let_def\<close>)
qed

lemma validateAgainstTokens_total:
  assumes "no_shadowing kvs"
  shows "\<exists>r. validateAgainstTokens (Json (JObj kvs)) toks opts = Inr r"
proof -
  obtain ps where "getAllConfigPaths (Json (JObj kvs)) = Inr ps"
    using config_paths_total [OF assms, of "[]"] assms
    by (auto simp: getAllConfigPaths_def enumerable_properties_def no_shadowing_keys)
  then show ?thesis
    by (simp add: validateAgainstTokens_def Let_def findUnusedConfigValues_def)
qed

lemma unused_example:
  "map_sum id unused
     (validateAgainstTokens (Json (JObj [(''client_name'', JStr ''X''), (''unused_field'', JStr ''Y'')]))
        [''client_name''] (default_validator_options \<lparr> warnOnUnused := True \<rparr>))
     = Inr [''unused_field'']"
  by code_simp

text \<open>When \<^verbatim>\<open>validateAgainstTokens\<close> with \<^verbatim>\<open>warnOnUnused\<close> returns a report, its \<^verbatim>\<open>unused\<close> list
  is the list of paths of \<^verbatim>\<open>getAllConfigPaths\<close> without those that occur among the tokens, and
  its \<^verbatim>\<open>valid\<close> flag is the one the same call gives without \<^verbatim>\<open>warnOnUnused\<close>. For a
  configuration object in which no object entered has an own \<^verbatim>\<open>hasOwnProperty\<close> and no
  top-level object sits under the empty key, these paths are the dotted leaf paths, and a
  report is returned whenever no object entered has an own \<^verbatim>\<open>hasOwnProperty\<close>. The
  configuration with \<^verbatim>\<open>client_name\<close> and \<^verbatim>\<open>unused_field\<close> and the token \<^verbatim>\<open>client_name\<close> give
  the unused list \<^verbatim>\<open>unused_field\<close>.\<close>

theorem unused_paths:
  "(validateAgainstTokens config toks (opts \<lparr> warnOnUnused := True \<rparr>) = Inr report \<longrightarrow>
      (\<exists>paths. getAllConfigPaths config = Inr paths
          \<and> unused report = filter (\<lambda>p. p \<notin> set toks) paths)
      \<and> map_sum id valid (validateAgainstTokens config toks (opts \<lparr> warnOnUnused := False \<rparr>))
          = Inr (valid report)
      \<and> (config = Json (JObj kvs) \<and> no_shadowing kvs
           \<and> (\<forall>(k, v) \<in> set kvs. k = [] \<longrightarrow> (\<forall>x. v \<noteq> JObj x))
          \<longrightarrow> unused report = filter (\<lambda>p. p \<notin> set toks) (map (join ''.'') (leaf_paths kvs))))
   \<and> (config = Json (JObj kvs) \<and> no_shadowing kvs
        \<longrightarrow> (\<exists>r. validateAgainstTokens config toks (opts \<lparr> warnOnUnused := True \<rparr>) = Inr r))
   \<and> map_sum id unused
         (validateAgainstTokens (Json (JObj [(''client_name'', JStr ''X''), (''unused_field'', JStr ''Y'')]))
            [''client_name''] (default_validator_options \<lparr> warnOnUnused := True \<rparr>))
       = Inr [''unused_field'']"
proof (intro conjI impI)
  assume v: "validateAgainstTokens config toks (opts \<lparr> warnOnUnused := True \<rparr>) = Inr report"
  show p: "\<exists>paths. getAllConfigPaths config = Inr paths
          \<and> unused report = filter (\<lambda>p. p \<notin> set toks) paths"
    by (rule validateAgainstTokens_unused(1) [OF v])
  show "map_sum id valid (validateAgainstTokens config toks (opts \<lparr> warnOnUnused := False \<rparr>))
          = Inr (valid report)"
    using validateAgainstTokens_unused(2,3) [OF v] by simp
  show "unused report = filter (\<lambda>p. p \<notin> set toks) (map (join ''.'') (leaf_paths kvs))"
    if "config = Json (JObj kvs) \<and> no_shadowing kvs
           \<and> (\<forall>(k, v) \<in> set kvs. k = [] \<longrightarrow> (\<forall>x. v \<noteq> JObj x))"
    using p that getAllConfigPaths_leaf_paths [of kvs] by auto
next
  show "\<exists>r. validateAgainstTokens config toks (opts \<lparr> warnOnUnused := True \<rparr>) = Inr r"
    if "config = Json (JObj kvs) \<and> no_shadowing kvs"
    using that validateAgainstTokens_total by blast
next
  show "map_sum id unused
         (validateAgainstTokens (Json (JObj [(''client_name'', JStr ''X''), (''unused_field'', JStr ''Y'')]))
            [''client_name''] (default_validator_options \<lparr> warnOnUnused := True \<rparr>))
       = Inr [''unused_field'']"
    by (rule unused_example)
qed

text \<open>The theorem at a nested configuration with an array and a \<^verbatim>\<open>null\<close>.\<close>

theorem unused_paths_witness:
  "(\<exists>r. validateAgainstTokens (Json (JObj [(''a'', JObj [(''b'', JNum 1), (''c'', JArr [])]), (''d'', JNull)]))
          [''a.b''] (default_validator_options \<lparr> warnOnUnused := True \<rparr>) = Inr r
        \<and> unused r = [''a.c'', ''d''] \<and> valid r)"
proof -
  let ?kvs = "[(''a'', JObj [(''b'', JNum 1), (''c'', JArr [])]), (''d'', JNull)]"
  let ?opts = "default_validator_options \<lparr> warnOnUnused := True \<rparr>"
  have n: "no_shadowing ?kvs" by simp
  have k: "\<forall>(k, v) \<in> set ?kvs. k = [] \<longrightarrow> (\<forall>x. v \<noteq> JObj x)" by simp
  have l: "map (join ''.'') (leaf_paths ?kvs) = [''a.b'', ''a.c'', ''d'']" by simp
  have f: "map_sum id valid (validateAgainstTokens (Json (JObj ?kvs)) [''a.b'']
             (default_validator_options \<lparr> warnOnUnused := False \<rparr>)) = Inr True"
    by code_simp
  note th = unused_paths [of "Json (JObj ?kvs)" "[''a.b'']" default_validator_options _ ?kvs]
  from th n obtain r where r: "validateAgainstTokens (Json (JObj ?kvs)) [''a.b''] ?opts = Inr r"
    by blast
  with th [of r] n k l f have "unused r = [''a.c'', ''d''] \<and> valid r"
    by simp
  with r show ?thesis by blast
qed

section \<open>Properties of the token cache\<close>

lemma read_and_cache_readable:
  "fs absolutePath = Some (File t (Inr body)) \<Longrightarrow>
   read_and_cache fs cache templatePath absolutePath
     = (Inr (extractTokens body),
        cache(absolutePath \<mapsto> \<lparr> cached_tokens = extractTokens body, cached_mtime = t \<rparr>))"
  by (simp add: read_and_cache_def readFileSync_def statSync_def Let_def)

lemma getCachedTokens_changed:
  assumes "cache (resolve p) = Some e" and "fs (resolve p) = Some (File t (Inr body))"
    and "t \<noteq> cached_mtime e"
  shows "getCachedTokens resolve fs cache p
           = (Inr (extractTokens body),
              cache(resolve p \<mapsto> \<lparr> cached_tokens = extractTokens body, cached_mtime = t \<rparr>))"
  using assms by (simp add: getCachedTokens_def statSync_def read_and_cache_readable Let_def)

lemma getCachedTokens_unchanged:
  assumes "cache (resolve p) = Some e" and "fs (resolve p) = Some (File t rd)"
    and "t = cached_mtime e"
  shows "getCachedTokens resolve fs cache p = (Inr (cached_tokens e), cache)"
  using assms by (simp add: getCachedTokens_def statSync_def Let_def)

lemma getCachedTokens_first:
  assumes "cache (resolve p) = None" and "fs (resolve p) = Some (File t (Inr body))"
  shows "getCachedTokens resolve fs cache p
           = (Inr (extractTokens body),
              cache(resolve p \<mapsto> \<lparr> cached_tokens = extractTokens body, cached_mtime = t \<rparr>))"
  using assms by (simp add: getCachedTokens_def read_and_cache_readable Let_def)

lemma getCachedTokens_two_calls:
  assumes "cache0 (resolve p) = None" and "fs0 (resolve p) = Some (File t0 (Inr body0))"
    and "fs1 (resolve p) = Some (File t1 (Inr body1))"
  shows "fst (getCachedTokens resolve fs1 (snd (getCachedTokens resolve fs0 cache0 p)) p)
           = Inr (if t1 = t0 then extractTokens body0 else extractTokens body1)"
proof -
  let ?c1 = "cache0(resolve p \<mapsto> \<lparr> cached_tokens = extractTokens body0, cached_mtime = t0 \<rparr>)"
  have first: "getCachedTokens resolve fs0 cache0 p = (Inr (extractTokens body0), ?c1)"
    using assms(1,2) by (rule getCachedTokens_first [where cache = cache0 and resolve = resolve and p = p and fs = fs0])
  have entry: "?c1 (resolve p) = Some \<lparr> cached_tokens = extractTokens body0, cached_mtime = t0 \<rparr>"
    by simp
  show ?thesis
  proof (cases "t1 = t0")
    case True
    then show ?thesis
      using getCachedTokens_unchanged [where cache = ?c1 and resolve = resolve and p = p and fs = fs1, OF entry assms(3)] first by simp
  next
    case False
    then show ?thesis
      using getCachedTokens_changed [where cache = ?c1 and resolve = resolve and p = p and fs = fs1, OF entry assms(3)] first by simp
  qed
qed

lemma getCachedTokens_fresh:
  assumes "cache_fresh cache fs" and "getCachedTokens resolve fs cache p = (Inr toks, cache')"
    and "fs (resolve p) = Some (File t (Inr body))"
  shows "toks = extractTokens body \<and> cache_fresh cache' fs"
proof (cases "cache (resolve p)")
  case None
  with assms(2,3) getCachedTokens_first [where cache = cache and resolve = resolve and p = p and fs = fs, OF None assms(3)]
  have "toks = extractTokens body"
    and c: "cache' = cache(resolve p \<mapsto> \<lparr> cached_tokens = extractTokens body, cached_mtime = t \<rparr>)"
    by auto
  moreover have "cache_fresh cache' fs"
    unfolding c using assms(1,3) by (auto simp: cache_fresh_def)
  ultimately show ?thesis by simp
next
  case (Some e)
  show ?thesis
  proof (cases "t = cached_mtime e")
    case True
    with assms(2) getCachedTokens_unchanged [where cache = cache and resolve = resolve and p = p and fs = fs, OF Some assms(3) True]
    have "toks = cached_tokens e" "cache' = cache" by auto
    moreover have "cached_tokens e = extractTokens body"
      using assms(1,3) Some True by (auto simp: cache_fresh_def)
    ultimately show ?thesis using assms(1) by simp
  next
    case False
    with assms(2) getCachedTokens_changed [where cache = cache and resolve = resolve and p = p and fs = fs, OF Some assms(3) False]
    have "toks = extractTokens body"
      and c: "cache' = cache(resolve p \<mapsto> \<lparr> cached_tokens = extractTokens body, cached_mtime = t \<rparr>)"
      by auto
    moreover have "cache_fresh cache' fs"
      unfolding c using assms(1,3) by (auto simp: cache_fresh_def)
    ultimately show ?thesis by simp
  qed
qed

text \<open>C8 (as amended). When the path has a cache entry and the time stamp of the file differs
  from the cached one, a readable file is read again: its tokens are returned and stored
  with the new time stamp. When the time stamp equals the cached one, the cached list is
  returned and the file is not read. So after a first call that stored the tokens of a
  file, a second call returns the tokens of the present content if the time stamp has
  changed and those of the content at the first call if it has not. From a cache that is
  fresh for the file system, a call returns the tokens of the present content of a
  readable file and leaves the cache fresh.\<close>

theorem cache_follows_timestamp:
  "(cache (resolve p) = Some e \<and> fs (resolve p) = Some (File t (Inr body)) \<and> t \<noteq> cached_mtime e
      \<longrightarrow> getCachedTokens resolve fs cache p
            = (Inr (extractTokens body),
               cache(resolve p \<mapsto> \<lparr> cached_tokens = extractTokens body, cached_mtime = t \<rparr>)))
   \<and> (cache (resolve p) = Some e \<and> fs (resolve p) = Some (File t rd) \<and> t = cached_mtime e
      \<longrightarrow> getCachedTokens resolve fs cache p = (Inr (cached_tokens e), cache))
   \<and> (cache0 (resolve p) = None \<and> fs0 (resolve p) = Some (File t0 (Inr body0))
        \<and> fs1 (resolve p) = Some (File t1 (Inr body1))
      \<longrightarrow> fst (getCachedTokens resolve fs1 (snd (getCachedTokens resolve fs0 cache0 p)) p)
            = Inr (if t1 = t0 then extractTokens body0 else extractTokens body1))
   \<and> (cache_fresh cache fs \<and> getCachedTokens resolve fs cache p = (Inr toks, cache')
        \<and> fs (resolve p) = Some (File t (Inr body))
      \<longrightarrow> toks = extractTokens body \<and> cache_fresh cache' fs)"
  using getCachedTokens_changed [of cache resolve p e fs t body]
        getCachedTokens_unchanged [of cache resolve p e fs t rd]
        getCachedTokens_two_calls [of cache0 resolve p fs0 t0 body0 fs1 t1 body1]
        getCachedTokens_fresh [of cache fs resolve p toks cache' t body]
  by blast

text \<open>C8 as stated fails: when the content changes and the time stamp does not, the second
  call returns the tokens of the old content, not those of a fresh extraction.\<close>

theorem stale_cache_counterexample:
  "fst (getCachedTokens id [''t.html'' \<mapsto> File 5 (Inr ''{{b}}'')]
          (snd (getCachedTokens id [''t.html'' \<mapsto> File 5 (Inr ''{{a}}'')] Map.empty ''t.html''))
          ''t.html'')
     = Inr [''a'']
   \<and> extractTokens ''{{b}}'' = [''b'']"
  by code_simp

text \<open>The theorem at a file whose content and time stamp both change between two calls,
  at entries with the same and with another time stamp, and at the empty cache.\<close>

theorem cache_follows_timestamp_witness:
  "fst (getCachedTokens id [''t.html'' \<mapsto> File 6 (Inr ''{{b}}'')]
          (snd (getCachedTokens id [''t.html'' \<mapsto> File 5 (Inr ''{{a}}'')] Map.empty ''t.html''))
          ''t.html'')
     = Inr (extractTokens ''{{b}}'')
   \<and> fst (getCachedTokens id [''t.html'' \<mapsto> File 5 (Inr ''{{a}}'')]
          [''t.html'' \<mapsto> \<lparr> cached_tokens = [''z''], cached_mtime = 5 \<rparr>] ''t.html'') = Inr [''z'']
   \<and> fst (getCachedTokens id [''t.html'' \<mapsto> File 5 (Inr ''{{a}}'')]
          [''t.html'' \<mapsto> \<lparr> cached_tokens = [''z''], cached_mtime = 4 \<rparr>] ''t.html'')
       = Inr (extractTokens ''{{a}}'')
   \<and> cache_fresh (snd (getCachedTokens id [''t.html'' \<mapsto> File 5 (Inr ''{{a}}'')] Map.empty ''t.html''))
        [''t.html'' \<mapsto> File 5 (Inr ''{{a}}'')]"
proof -
  let ?fs = "[''t.html'' \<mapsto> File 5 (Inr ''{{a}}'')]"
  let ?fs6 = "[''t.html'' \<mapsto> File 6 (Inr ''{{b}}'')]"
  let ?run = "getCachedTokens id ?fs Map.empty ''t.html''"
  have two: "fst (getCachedTokens id ?fs6 (snd ?run) ''t.html'') = Inr (extractTokens ''{{b}}'')"
    using cache_follows_timestamp [where resolve = id and p = "''t.html''" and cache0 = Map.empty
            and ?fs0.0 = ?fs and ?t0.0 = 5 and ?body0.0 = "''{{a}}''"
            and ?fs1.0 = ?fs6 and ?t1.0 = 6 and ?body1.0 = "''{{b}}''",
            THEN conjunct2, THEN conjunct2, THEN conjunct1]
    by simp
  have same: "fst (getCachedTokens id ?fs [''t.html'' \<mapsto> \<lparr> cached_tokens = [''z''], cached_mtime = 5 \<rparr>]
                 ''t.html'') = Inr [''z'']"
    using cache_follows_timestamp [where resolve = id and p = "''t.html''"
            and cache = "[''t.html'' \<mapsto> \<lparr> cached_tokens = [''z''], cached_mtime = 5 \<rparr>]"
            and e = "\<lparr> cached_tokens = [''z''], cached_mtime = 5 \<rparr>"
            and fs = ?fs and t = 5 and rd = "Inr ''{{a}}''", THEN conjunct2, THEN conjunct1]
    by simp
  have changed: "fst (getCachedTokens id ?fs [''t.html'' \<mapsto> \<lparr> cached_tokens = [''z''], cached_mtime = 4 \<rparr>]
                 ''t.html'') = Inr (extractTokens ''{{a}}'')"
    using cache_follows_timestamp [where resolve = id and p = "''t.html''"
            and cache = "[''t.html'' \<mapsto> \<lparr> cached_tokens = [''z''], cached_mtime = 4 \<rparr>]"
            and e = "\<lparr> cached_tokens = [''z''], cached_mtime = 4 \<rparr>"
            and fs = ?fs and t = 5 and body = "''{{a}}''", THEN conjunct1]
    by simp
  have empty: "cache_fresh Map.empty ?fs" by (simp add: cache_fresh_def)
  have r: "?run = (Inr (extractTokens ''{{a}}''), snd ?run)"
    by (simp add: getCachedTokens_def read_and_cache_def readFileSync_def statSync_def Let_def)
  have prem: "cache_fresh Map.empty ?fs
          \<and> ?run = (Inr (extractTokens ''{{a}}''), snd ?run)
          \<and> ?fs (id ''t.html'') = Some (File 5 (Inr ''{{a}}''))"
  proof (intro conjI)
    show "cache_fresh Map.empty ?fs" by (rule empty)
    show "?run = (Inr (extractTokens ''{{a}}''), snd ?run)" by (rule r)
    show "?fs (id ''t.html'') = Some (File 5 (Inr ''{{a}}''))" by simp
  qed
  note th = cache_follows_timestamp [where resolve = id and p = "''t.html''" and cache = Map.empty
            and fs = ?fs and toks = "extractTokens ''{{a}}''" and cache' = "snd ?run"
            and t = 5 and body = "''{{a}}''"]
  have fresh: "cache_fresh (snd ?run) ?fs"
    using th [THEN conjunct2, THEN conjunct2, THEN conjunct2, THEN mp, OF prem]
    by (rule conjunct2)
  from two same changed fresh show ?thesis by (intro conjI)
qed

section \<open>Properties of markers\<close>

lemma marker_at_SomeD:
  assumes "marker_at s = Some (name, rest)"
  shows "s = ''{{'' @ name @ ''}}'' @ rest" and "name \<noteq> []" and "CHR ''}'' \<notin> set name"
proof -
  let ?b = "drop 2 s"
  let ?P = "\<lambda>c. c \<noteq> CHR ''}''"
  from assms have t: "take 2 s = ''{{''" and n: "name = takeWhile ?P ?b"
    and ne: "name \<noteq> []" and c: "take 2 (dropWhile ?P ?b) = ''}}''"
    and r: "rest = drop 2 (dropWhile ?P ?b)"
    by (auto simp: marker_at_def Let_def split: if_splits)
  have "s = take 2 s @ ?b" by simp
  also have "?b = takeWhile ?P ?b @ dropWhile ?P ?b" by simp
  also have "dropWhile ?P ?b = take 2 (dropWhile ?P ?b) @ drop 2 (dropWhile ?P ?b)" by simp
  finally show "s = ''{{'' @ name @ ''}}'' @ rest"
    using t n c r by simp
  show "name \<noteq> []" by (rule ne)
  show "CHR ''}'' \<notin> set name"
    unfolding n using set_takeWhileD by fastforce
qed

lemma marker_at_SomeI:
  assumes "name \<noteq> []" and "CHR ''}'' \<notin> set name"
  shows "marker_at (''{{'' @ name @ ''}}'' @ rest) = Some (name, rest)"
proof -
  have all: "\<And>c. c \<in> set name \<Longrightarrow> c \<noteq> CHR ''}''"
    using assms(2) by auto
  have "takeWhile (\<lambda>c. c \<noteq> CHR ''}'') (name @ ''}}'' @ rest) = name"
    by (simp add: takeWhile_append2 all)
  moreover have "dropWhile (\<lambda>c. c \<noteq> CHR ''}'') (name @ ''}}'' @ rest) = ''}}'' @ rest"
    by (simp add: dropWhile_append2 all)
  ultimately show ?thesis
    using assms(1) by (simp add: marker_at_def)
qed

lemma marker_at_shorter:
  assumes "marker_at s = Some (name, rest)"
  shows "length rest < length s"
proof -
  have "length s = length (''{{'' @ name @ ''}}'' @ rest)"
    using marker_at_SomeD(1) [OF assms] by simp
  then show ?thesis by simp
qed

lemma marker_at_head: "marker_at s \<noteq> None \<Longrightarrow> take 2 s = ''{{''"
  by (auto simp: marker_at_def split: if_splits)

lemma scan_markers_Nil [simp]: "scan_markers [] = []"
  by (simp add: scan_markers.simps)

lemma scan_markers_Some:
  "marker_at s = Some (name, rest) \<Longrightarrow> scan_markers s = trim name # scan_markers rest"
  using marker_at_SomeD(1) [of s name rest]
  by (subst scan_markers.simps) auto

lemma scan_markers_None:
  "marker_at (c # s) = None \<Longrightarrow> scan_markers (c # s) = scan_markers s"
  by (subst scan_markers.simps) simp

lemma scan_markers_skip:
  "c \<noteq> CHR ''{'' \<Longrightarrow> scan_markers (c # s) = scan_markers s"
  by (rule scan_markers_None) (simp add: marker_at_def)

lemma scan_markers_brace_free:
  "CHR ''{'' \<notin> set u \<Longrightarrow> scan_markers (u @ s) = scan_markers s"
proof (induction u)
  case Nil
  show ?case by simp
next
  case (Cons a u)
  then have "a \<noteq> CHR ''{''" by auto
  with Cons show ?case by (simp add: scan_markers_skip)
qed

section \<open>Properties of the matcher\<close>

lemma match_items_sound:
  "match_items items s = Some r \<Longrightarrow> r \<in> remainders items s"
  "backtrack items s k = Some r \<Longrightarrow>
     k \<le> length (takeWhile (accepts a) s) \<Longrightarrow> r \<in> remainders (Star a # items) s"
proof (induction items s and items s k arbitrary: r and r a rule: match_items_backtrack.induct)
  case (1 s)
  then show ?case by simp
next
  case (2 a items s)
  then show ?case by (auto split: if_splits)
next
  case (3 a items s)
  from "3.IH" [of r a] "3.prems" show ?case by simp
next
  case (4 items s)
  from "4.prems" "4.IH" [of r] show ?case by force
next
  case (5 items s k)
  show ?case
  proof (cases "match_items items (drop (Suc k) s)")
    case None
    with "5.prems" have "backtrack items s k = Some r" by simp
    from "5.IH"(2) [OF None this] "5.prems"(2) show ?thesis by simp
  next
    case (Some r')
    with "5.prems" have "r' = r" by simp
    with Some "5.IH"(1) [of r] have "r \<in> remainders items (drop (Suc k) s)" by simp
    with "5.prems"(2) show ?thesis by auto
  qed
qed

lemma match_items_complete:
  "remainders items s \<noteq> {} \<Longrightarrow> match_items items s \<noteq> None"
  "(\<exists>j\<le>k. remainders items (drop j s) \<noteq> {}) \<Longrightarrow> backtrack items s k \<noteq> None"
proof (induction items s and items s k rule: match_items_backtrack.induct)
  case (1 s)
  show ?case by simp
next
  case (2 a items s)
  then show ?case by (auto split: if_splits)
next
  case (3 a items s)
  from "3.prems" have "\<exists>j\<le>length (takeWhile (accepts a) s). remainders items (drop j s) \<noteq> {}"
    by auto
  from "3.IH" [OF this] show ?case by simp
next
  case (4 items s)
  then show ?case by simp
next
  case (5 items s k)
  show ?case
  proof (cases "match_items items (drop (Suc k) s)")
    case None
    with "5.IH"(1) have "remainders items (drop (Suc k) s) = {}" by blast
    with "5.prems" have "\<exists>j\<le>k. remainders items (drop j s) \<noteq> {}"
      by (metis le_Suc_eq)
    from "5.IH"(2) [OF None this] None show ?thesis by simp
  next
    case (Some r')
    then show ?thesis by simp
  qed
qed

lemma remainders_append:
  "remainders (xs @ ys) s = (\<Union>mid \<in> remainders xs s. remainders ys mid)"
proof (induction xs arbitrary: s)
  case Nil
  show ?case by simp
next
  case (Cons x xs)
  show ?case
    by (cases x) (auto simp: Cons.IH)
qed

lemma remainders_suffix:
  "r \<in> remainders items s \<Longrightarrow> \<exists>m. s = m @ r"
proof (induction items arbitrary: s)
  case Nil
  then show ?case by simp
next
  case (Cons x items)
  show ?case
  proof (cases x)
    case (One a)
    with Cons.prems have "r \<in> remainders items s \<or> (s \<noteq> [] \<and> r \<in> remainders items (tl s))"
      by (auto split: if_splits)
    then show ?thesis
    proof
      assume "r \<in> remainders items s"
      then show ?thesis by (rule Cons.IH)
    next
      assume h: "s \<noteq> [] \<and> r \<in> remainders items (tl s)"
      then obtain m where "tl s = m @ r" using Cons.IH by blast
      with h have "s = (hd s # m) @ r" by (cases s) auto
      then show ?thesis by blast
    qed
  next
    case (Star a)
    with Cons.prems obtain k where "r \<in> remainders items (drop k s)" by auto
    then obtain m where "drop k s = m @ r" using Cons.IH by blast
    then have "s = (take k s @ m) @ r" by (metis append_assoc append_take_drop_id)
    then show ?thesis by blast
  qed
qed


lemma trim_decompose:
  "\<exists>ws1 ws2. name = ws1 @ trim name @ ws2 \<and> (\<forall>c\<in>set ws1. is_space c) \<and> (\<forall>c\<in>set ws2. is_space c)"
proof -
  let ?d = "dropWhile is_space name"
  let ?ws1 = "takeWhile is_space name"
  let ?ws2 = "rev (takeWhile is_space (rev ?d))"
  have d: "?d = trim name @ ?ws2"
    unfolding trim_def by (metis rev_append rev_rev_ident takeWhile_dropWhile_id)
  have "name = ?ws1 @ ?d" by simp
  with d have "name = ?ws1 @ trim name @ ?ws2" by simp
  moreover have "\<forall>c\<in>set ?ws1. is_space c" by (auto dest: set_takeWhileD)
  moreover have "\<forall>c\<in>set ?ws2. is_space c" by (auto dest: set_takeWhileD)
  ultimately show ?thesis by blast
qed

lemma remainders_star_skip:
  assumes "\<forall>c\<in>set ws. accepts a c"
  shows "remainders items x \<subseteq> remainders (Star a # items) (ws @ x)"
proof -
  have "takeWhile (accepts a) (ws @ x) = ws @ takeWhile (accepts a) x"
    using assms by (simp add: takeWhile_append2)
  then have "length ws \<le> length (takeWhile (accepts a) (ws @ x))" by simp
  moreover have "drop (length ws) (ws @ x) = x" by simp
  ultimately show ?thesis by (auto intro!: bexI [of _ "length ws"])
qed

lemma remainders_token_chars:
  "remainders (map (\<lambda>c. One (if c = CHR ''.'' then AnyChar else Lit c)) t @ items) (t @ x)
     = remainders items x"
proof (induction t)
  case Nil
  show ?case by simp
next
  case (Cons c t)
  have "\<not> is_line_terminator CHR ''.''" by (simp add: is_line_terminator_def)
  with Cons show ?case by simp
qed

lemma remainders_token_own:
  "rest \<in> remainders (items_of_token (trim name)) (''{{'' @ name @ ''}}'' @ rest)"
proof -
  obtain ws1 ws2 where n: "name = ws1 @ trim name @ ws2"
    and w1: "\<forall>c\<in>set ws1. accepts Space c" and w2: "\<forall>c\<in>set ws2. accepts Space c"
    using trim_decompose [of name] by auto
  let ?t = "trim name"
  let ?close = "[One (Lit CHR ''}''), One (Lit CHR ''}'')]"
  let ?mid = "map (\<lambda>c. One (if c = CHR ''.'' then AnyChar else Lit c)) ?t @ Star Space # ?close"
  have "rest \<in> remainders ?close (''}}'' @ rest)" by simp
  with remainders_star_skip [OF w2, of ?close "''}}'' @ rest"]
  have "rest \<in> remainders (Star Space # ?close) (ws2 @ ''}}'' @ rest)" by blast
  then have "rest \<in> remainders ?mid (?t @ ws2 @ ''}}'' @ rest)"
    by (simp only: remainders_token_chars)
  with remainders_star_skip [OF w1, of ?mid "?t @ ws2 @ ''}}'' @ rest"]
  have "rest \<in> remainders (Star Space # ?mid) (ws1 @ ?t @ ws2 @ ''}}'' @ rest)" by blast
  then have "rest \<in> remainders (items_of_token ?t) (''{{'' @ (ws1 @ ?t @ ws2) @ ''}}'' @ rest)"
    by (simp add: items_of_token_def)
  with n show ?thesis by simp
qed

lemma remainders_token_shape:
  assumes "r \<in> remainders (items_of_token t) s"
  shows "take 2 s = ''{{''" and "\<exists>m. s = m @ ''}}'' @ r"
proof -
  let ?body = "[One (Lit CHR ''{''), One (Lit CHR ''{''), Star Space]
     @ map (\<lambda>c. One (if c = CHR ''.'' then AnyChar else Lit c)) t @ [Star Space]"
  let ?close = "[One (Lit CHR ''}''), One (Lit CHR ''}'')]"
  have split: "items_of_token t = ?body @ ?close" by (simp add: items_of_token_def)
  from assms obtain mid where mid: "mid \<in> remainders ?body s" and r: "r \<in> remainders ?close mid"
    unfolding split remainders_append by blast
  from r have "mid = ''}}'' @ r"
    by (cases mid; cases "tl mid") (auto split: if_splits)
  moreover from mid obtain m where "s = m @ mid" using remainders_suffix by blast
  ultimately show "\<exists>m. s = m @ ''}}'' @ r" by blast
  from assms show "take 2 s = ''{{''"
    by (cases s; cases "tl s") (auto simp: items_of_token_def split: if_splits)
qed


section \<open>Tidy templates\<close>

lemma tidy_brace_free: "CHR ''{'' \<notin> set u \<Longrightarrow> tidy (u @ x) = tidy x"
proof (induction u)
  case Nil
  show ?case by simp
next
  case (Cons c u)
  then have "c \<noteq> CHR ''{''" by auto
  with Cons show ?case by (simp add: tidy.simps(2))
qed

lemma tidy_tl: "tidy s \<Longrightarrow> tidy (tl s)"
  by (cases s) (auto simp: tidy.simps(2))

lemma tidy_drop: "tidy s \<Longrightarrow> tidy (drop k s)"
proof (induction k arbitrary: s)
  case 0
  then show ?case by simp
next
  case (Suc k)
  then show ?case by (cases s) (auto simp: tidy.simps(2))
qed

lemma tidy_append: "tidy (m @ r) \<Longrightarrow> tidy r"
  using tidy_drop [of "m @ r" "length m"] by simp

lemma tidy_head:
  assumes "tidy s" and "take 2 s = ''{{''"
  shows "\<exists>name rest. marker_at s = Some (name, rest) \<and> CHR ''{'' \<notin> set name"
  using assms by (cases s) (auto simp: tidy.simps(2) split: option.splits)

lemma scan_markers_inside:
  assumes "marker_at s = Some (name, rest)" and "CHR ''{'' \<notin> set name"
  shows "scan_markers (tl s) = scan_markers rest"
proof -
  note d = marker_at_SomeD [OF assms(1)]
  have hn: "take 2 (CHR ''{'' # (name @ ''}}'') @ rest) \<noteq> ''{{''"
    using d(2) assms(2) by (cases name) auto
  have "marker_at (CHR ''{'' # (name @ ''}}'') @ rest) = None"
    using hn marker_at_head by blast
  then have a: "scan_markers (CHR ''{'' # (name @ ''}}'') @ rest) = scan_markers ((name @ ''}}'') @ rest)"
    by (rule scan_markers_None)
  have "CHR ''{'' \<notin> set (name @ ''}}'')" using assms(2) by simp
  then have b: "scan_markers ((name @ ''}}'') @ rest) = scan_markers rest"
    by (rule scan_markers_brace_free)
  have "tl s = CHR ''{'' # (name @ ''}}'') @ rest" using d(1) by simp
  with a b show ?thesis by simp
qed

lemma scan_markers_tl:
  assumes "tidy s"
  shows "set (scan_markers (tl s)) \<subseteq> set (scan_markers s)"
proof (cases s)
  case Nil
  then show ?thesis by simp
next
  case (Cons c s')
  show ?thesis
  proof (cases "marker_at s")
    case None
    with Cons show ?thesis by (simp add: scan_markers_None)
  next
    case (Some p)
    obtain name rest where p: "p = (name, rest)" by (cases p)
    with Some have mk: "marker_at s = Some (name, rest)" by simp
    then have "take 2 s = ''{{''" using marker_at_head by simp
    with assms mk have "CHR ''{'' \<notin> set name" using tidy_head by fastforce
    with mk have "scan_markers (tl s) = scan_markers rest" by (rule scan_markers_inside)
    with scan_markers_Some [OF mk] show ?thesis by auto
  qed
qed

lemma scan_markers_drop:
  "tidy s \<Longrightarrow> set (scan_markers (drop k s)) \<subseteq> set (scan_markers s)"
proof (induction k arbitrary: s)
  case 0
  show ?case by simp
next
  case (Suc k)
  have "drop (Suc k) s = drop k (tl s)" by (simp add: drop_Suc)
  with Suc.IH [OF tidy_tl [OF Suc.prems]] scan_markers_tl [OF Suc.prems]
  show ?case by auto
qed

lemma scan_markers_append:
  "tidy (m @ r) \<Longrightarrow> set (scan_markers r) \<subseteq> set (scan_markers (m @ r))"
  using scan_markers_drop [of "m @ r" "length m"] by simp

section \<open>Properties of the global replacement\<close>

lemma replace_from_Nil [simp]: "replace_from items v pre [] = []"
  by (simp add: replace_from.simps)

lemma replace_from_no_match:
  "match_items items (c # s) = None \<Longrightarrow>
   replace_from items v pre (c # s) = c # replace_from items v (pre @ [c]) s"
  by (subst replace_from.simps) simp

lemma replace_from_match:
  "match_items items s = Some r \<Longrightarrow> length r < length s \<Longrightarrow>
   replace_from items v pre s
     = expand v pre (take (length s - length r) s) r
       @ replace_from items v (pre @ take (length s - length r) s) r"
  by (subst replace_from.simps) auto

lemma token_no_match:
  "take 2 s \<noteq> ''{{'' \<Longrightarrow> match_items (items_of_token t) s = None"
  using match_items_sound(1) [of "items_of_token t" s] remainders_token_shape(1) [of _ t s]
  by (cases "match_items (items_of_token t) s") auto

lemma replace_from_copy:
  "CHR ''{'' \<notin> set u \<Longrightarrow>
   replace_from (items_of_token t) v pre (u @ x) = u @ replace_from (items_of_token t) v (pre @ u) x"
proof (induction u arbitrary: pre)
  case Nil
  show ?case by simp
next
  case (Cons c u)
  then have "take 2 (c # u @ x) \<noteq> ''{{''" by auto
  then have "match_items (items_of_token t) (c # u @ x) = None" by (rule token_no_match)
  with Cons show ?case by (simp add: replace_from_no_match)
qed

lemma has_reference_tail: "has_reference r \<Longrightarrow> has_reference (c # r)"
  by (cases r) auto

lemma expand_safe:
  "\<not> has_reference v \<Longrightarrow> set (expand v pre matched after) \<subseteq> set v"
  by (induction v pre matched after rule: expand.induct) (auto dest: has_reference_tail)


lemma replace_from_tidy:
  assumes "safe_value v"
  shows "tidy s \<Longrightarrow>
     tidy (replace_from (items_of_token t) v pre s)
     \<and> set (scan_markers (replace_from (items_of_token t) v pre s)) \<subseteq> set (scan_markers s) - {t}"
proof (induction "length s" arbitrary: s pre rule: less_induct)
  case less
  let ?items = "items_of_token t"
  show ?case
  proof (cases s)
    case Nil
    then show ?thesis by simp
  next
    case (Cons c s')
    show ?thesis
    proof (cases "match_items ?items s")
      case (Some r)
      then have rem: "r \<in> remainders ?items s" by (rule match_items_sound(1))
      then obtain m where m: "s = m @ ''}}'' @ r"
        using remainders_token_shape(2) by blast
      then have len: "length r < length s" by simp
      from m have m': "s = (m @ ''}}'') @ r" by simp
      let ?e = "expand v pre (take (length s - length r) s) r"
      have e: "CHR ''{'' \<notin> set ?e"
        using assms expand_safe [of v pre "take (length s - length r) s" r]
        by (auto simp: safe_value_def)
      have rf: "replace_from ?items v pre s
                  = ?e @ replace_from ?items v (pre @ take (length s - length r) s) r"
        using Some len by (rule replace_from_match)
      have tr: "tidy r"
        using less.prems tidy_append [of "m @ ''}}''" r] m' by simp
      have sr: "set (scan_markers r) \<subseteq> set (scan_markers s)"
        using less.prems scan_markers_append [of "m @ ''}}''" r] m' by simp
      from less.hyps [OF len tr, of "pre @ take (length s - length r) s"] sr rf e show ?thesis
        by (auto simp: tidy_brace_free scan_markers_brace_free)
    next
      case None
      then have rf: "replace_from ?items v pre s = c # replace_from ?items v (pre @ [c]) s'"
        using Cons by (simp add: replace_from_no_match)
      show ?thesis
      proof (cases "take 2 s = ''{{''")
        case False
        let ?x = "replace_from ?items v (pre @ [c]) s'"
        have ts: "tidy s'" using less.prems Cons by (simp add: tidy.simps(2))
        have ls: "length s' < length s" using Cons by simp
        from less.hyps [OF ls ts, of "pre @ [c]"]
        have ih: "tidy ?x" "set (scan_markers ?x) \<subseteq> set (scan_markers s') - {t}" by auto
        have nx: "take 2 (c # ?x) \<noteq> ''{{''"
        proof (cases s')
          case Nil
          then show ?thesis by simp
        next
          case (Cons d s'')
          show ?thesis
          proof (cases "d = CHR ''{''")
            case True
            with False \<open>s = c # s'\<close> Cons show ?thesis by simp
          next
            case False
            then have "take 2 s' \<noteq> ''{{''" using Cons by simp
            then have "match_items ?items (d # s'') = None"
              using Cons token_no_match by simp
            then have "?x = d # replace_from ?items v ((pre @ [c]) @ [d]) s''"
              using Cons by (simp add: replace_from_no_match)
            with False show ?thesis by simp
          qed
        qed
        then have mx: "marker_at (c # ?x) = None" using marker_at_head by blast
        have ms: "marker_at (c # s') = None" using False Cons marker_at_head by blast
        have tx: "tidy (c # ?x)" by (subst tidy.simps(2)) (use nx ih(1) in blast)
        have sx: "scan_markers (c # ?x) = scan_markers ?x" using mx by (rule scan_markers_None)
        have ss: "scan_markers s = scan_markers s'" using ms Cons by (simp add: scan_markers_None)
        show ?thesis unfolding rf sx ss using tx ih(2) by (intro conjI)
      next
        case True
        with less.prems obtain name rest where
          mk: "marker_at s = Some (name, rest)" and nb: "CHR ''{'' \<notin> set name"
          using tidy_head by blast
        note d = marker_at_SomeD [OF mk]
        have sc: "scan_markers s = trim name # scan_markers rest"
          using mk by (rule scan_markers_Some)
        have ne: "trim name \<noteq> t"
        proof
          assume "trim name = t"
          then have "rest \<in> remainders ?items s"
            using remainders_token_own [of rest name] d(1) by simp
          with match_items_complete(1) [of ?items s] None show False by blast
        qed
        have hn: "hd name \<noteq> CHR ''{''" using d(2) nb by (cases name) auto
        have s0: "s = CHR ''{'' # CHR ''{'' # name @ ''}}'' @ rest" using d(1) by simp
        have "match_items ?items (CHR ''{'' # name @ ''}}'' @ rest) = None"
          using hn d(2) by (intro token_no_match) (cases name; simp)
        moreover have "match_items ?items (CHR ''{'' # CHR ''{'' # name @ ''}}'' @ rest) = None"
          using None s0 by simp
        moreover have nbc: "CHR ''{'' \<notin> set (name @ ''}}'')" using nb by simp
        ultimately have rf2: "replace_from ?items v pre s
                    = ''{{'' @ name @ ''}}'' @ replace_from ?items v (pre @ ''{{'' @ name @ ''}}'') rest"
          using replace_from_copy [of "name @ ''}}''" t v "pre @ ''{{''" rest]
          by (subst s0) (simp add: replace_from_no_match)
        have len: "length rest < length s" using mk by (rule marker_at_shorter)
        have "s = (''{{'' @ name @ ''}}'') @ rest" using d(1) by simp
        then have tr: "tidy rest"
          using less.prems tidy_append [of "''{{'' @ name @ ''}}''" rest] by simp
        let ?x = "replace_from ?items v (pre @ ''{{'' @ name @ ''}}'') rest"
        have mx: "marker_at (''{{'' @ name @ ''}}'' @ ?x) = Some (name, ?x)"
          using d(2,3) by (rule marker_at_SomeI)
        from less.hyps [OF len tr, of "pre @ ''{{'' @ name @ ''}}''"]
        have ih: "tidy ?x" "set (scan_markers ?x) \<subseteq> set (scan_markers rest) - {t}" by auto
        have t1: "tidy ((name @ ''}}'') @ ?x)" unfolding tidy_brace_free [OF nbc] by (rule ih(1))
        have n1: "take 2 (CHR ''{'' # (name @ ''}}'') @ ?x) \<noteq> ''{{''"
          using hn d(2) by (cases name) auto
        have t2: "tidy (CHR ''{'' # (name @ ''}}'') @ ?x)"
          by (subst tidy.simps(2)) (use n1 t1 in blast)
        have mx': "marker_at (CHR ''{'' # CHR ''{'' # (name @ ''}}'') @ ?x) = Some (name, ?x)"
          using mx by simp
        have "tidy (CHR ''{'' # CHR ''{'' # (name @ ''}}'') @ ?x)"
          by (subst tidy.simps(2)) (use mx' nb t2 in simp)
        then have "tidy (''{{'' @ name @ ''}}'' @ ?x)" by simp
        moreover have "scan_markers (''{{'' @ name @ ''}}'' @ ?x) = trim name # scan_markers ?x"
          using mx by (rule scan_markers_Some)
        ultimately show ?thesis
          unfolding rf2 sc using ih(2) ne by auto
      qed
    qed
  qed
qed

section \<open>The pattern of a token\<close>

lemma escapeRegex_no_backslash: "backslash \<notin> set t \<Longrightarrow> escapeRegex t = t"
  by (induction t rule: escapeRegex.induct) auto

lemma token_char_facts:
  assumes "token_char c"
  shows "c \<noteq> backslash" and "c \<noteq> CHR ''*''" and "c \<noteq> CHR ''$''"
    and "c \<noteq> CHR ''.'' \<Longrightarrow> \<not> syntax_character c"
  using assms by (auto simp: token_char_def syntax_character_def backslash_def)

lemma parse_items_token_char:
  assumes "token_char c" and "rest \<noteq> []" and "hd rest \<noteq> CHR ''*''"
  shows "parse_items (c # rest)
           = map_option ((#) (One (if c = CHR ''.'' then AnyChar else Lit c))) (parse_items rest)"
  using assms token_char_facts [OF assms(1)]
  by (subst parse_items.simps) (auto simp: parse_atom_def)

lemma parse_items_closing:
  "parse_items [backslash, CHR ''s'', CHR ''*'', backslash, CHR ''}'', backslash, CHR ''}'']
     = Some [Star Space, One (Lit CHR ''}''), One (Lit CHR ''}'')]"
  by code_simp

lemma parse_items_token_chars:
  assumes "\<forall>c\<in>set t. token_char c"
  shows "parse_items (t @ [backslash, CHR ''s'', CHR ''*'', backslash, CHR ''}'', backslash, CHR ''}''])
           = Some (map (\<lambda>c. One (if c = CHR ''.'' then AnyChar else Lit c)) t
                   @ [Star Space, One (Lit CHR ''}''), One (Lit CHR ''}'')])"
  using assms
proof (induction t)
  case Nil
  show ?case by (simp add: parse_items_closing)
next
  case (Cons c t)
  let ?rest = "t @ [backslash, CHR ''s'', CHR ''*'', backslash, CHR ''}'', backslash, CHR ''}'']"
  have h: "hd ?rest \<noteq> CHR ''*''"
  proof (cases t)
    case Nil
    then show ?thesis by (simp add: backslash_def)
  next
    case (Cons d t')
    with Cons.prems have "token_char d" by simp
    then show ?thesis using Cons by (simp add: token_char_facts(2))
  qed
  have n: "?rest \<noteq> []" by simp
  have c: "token_char c" using Cons.prems by simp
  have "parse_items (c # ?rest)
      = map_option ((#) (One (if c = CHR ''.'' then AnyChar else Lit c))) (parse_items ?rest)"
    using c n h by (rule parse_items_token_char)
  with Cons show ?case by simp
qed

lemma parse_items_opening:
  "parse_items ([backslash, CHR ''{'', backslash, CHR ''{'', backslash, CHR ''s'', CHR ''*''] @ rest)
     = map_option (\<lambda>items. One (Lit CHR ''{'') # One (Lit CHR ''{'') # Star Space # items)
         (parse_items rest)"
proof -
  have a: "parse_items (backslash # CHR ''s'' # CHR ''*'' # rest)
             = map_option ((#) (Star Space)) (parse_items rest)"
    by (subst parse_items.simps) (simp add: parse_atom_def)
  have b: "parse_items (backslash # CHR ''{'' # backslash # r)
             = map_option ((#) (One (Lit CHR ''{''))) (parse_items (backslash # r))" for r
    by (subst parse_items.simps) (simp add: parse_atom_def backslash_def)
  show ?thesis
    by (simp add: a b option.map_comp o_def)
qed

lemma interpret_token_pattern:
  assumes "\<forall>c\<in>set t. token_char c"
  shows "interpret_pattern (token_pattern t)
           = Some (\<lambda>subject replacement. replace_from (items_of_token t) replacement [] subject)"
proof -
  have "backslash \<notin> set t" using assms token_char_facts(1) by blast
  then have "token_pattern t
      = [backslash, CHR ''{'', backslash, CHR ''{'', backslash, CHR ''s'', CHR ''*'']
        @ (t @ [backslash, CHR ''s'', CHR ''*'', backslash, CHR ''}'', backslash, CHR ''}''])"
    by (simp add: token_pattern_def escapeRegex_no_backslash)
  then have "parse_items (token_pattern t) = Some (items_of_token t)"
    using parse_items_token_chars [OF assms]
    by (simp only: parse_items_opening) (simp add: items_of_token_def)
  moreover have "min_width (items_of_token t) \<noteq> 0" by (simp add: items_of_token_def)
  ultimately show ?thesis by (simp add: interpret_pattern_def)
qed

section \<open>The round trip\<close>

lemma replace_loop_clears_markers:
  assumes "conforms engine"
  shows "\<forall>t\<in>set toks. (\<forall>c\<in>set t. token_char c) \<and> (\<exists>v. substitutes config t = Some v \<and> safe_value v)
     \<Longrightarrow> tidy r
     \<Longrightarrow> \<exists>r'. replace_loop engine config opts (r, ws) toks = Inr (r', ws)
            \<and> tidy r' \<and> set (scan_markers r') \<subseteq> set (scan_markers r) - set toks"
proof (induction toks arbitrary: r)
  case Nil
  then show ?case by simp
next
  case (Cons t toks)
  from Cons.prems obtain v where tc: "\<forall>c\<in>set t. token_char c"
    and v: "substitutes config t = Some v" and sv: "safe_value v" by auto
  let ?re = "\<lambda>subject replacement. replace_from (items_of_token t) replacement [] subject"
  have re: "engine (token_pattern t) = Inr ?re"
    using assms interpret_token_pattern [OF tc] by (simp add: conforms_def)
  have step: "replace_token engine config opts (r, ws) t = Inr (?re r v, ws)"
    using replace_token_cases [where engine = engine and t = t, OF re, of config opts "(r, ws)"] v
    by simp
  have inv: "tidy (?re r v)" "set (scan_markers (?re r v)) \<subseteq> set (scan_markers r) - {t}"
    using replace_from_tidy [OF sv Cons.prems(2), of t "[]"] by auto
  from Cons.IH [OF _ inv(1)] Cons.prems(1) obtain r' where
    "replace_loop engine config opts (?re r v, ws) toks = Inr (r', ws)"
    "tidy r'" "set (scan_markers r') \<subseteq> set (scan_markers (?re r v)) - set toks"
    by auto
  with step inv(2) show ?case by auto
qed

text \<open>C7 (as amended). Let the engine conform and the template be tidy: every pair of
  opening braces in it starts a marker whose name has no opening brace. Let every token
  extracted consist of dots and of characters that are not syntax characters of regular
  expressions, and let the configuration give it a value whose string conversion has no
  opening brace and no reference \<^verbatim>\<open>$&\<close>, \<^verbatim>\<open>$`\<close> or \<^verbatim>\<open>$'\<close>. Then \<^verbatim>\<open>replaceTokens\<close> returns without a warning, under every
  policy, and \<^verbatim>\<open>extractTokens\<close> finds no token in the text returned.\<close>

theorem round_trip:
  assumes "conforms engine" and "tidy body"
    and "\<forall>t\<in>set (extractTokens body).
           (\<forall>c\<in>set t. token_char c) \<and> (\<exists>v. substitutes config t = Some v \<and> safe_value v)"
  shows "\<exists>result. replaceTokens engine body config None opts = Inr (result, [])
           \<and> extractTokens result = []"
proof -
  have toks: "set (extractTokens body) = set (scan_markers body)"
    by (simp add: extractTokens_def)
  from replace_loop_clears_markers [OF assms(1,3,2), of opts "[]"] obtain r' where
    loop: "replace_loop engine config opts (body, []) (extractTokens body) = Inr (r', [])"
    and sub: "set (scan_markers r') \<subseteq> set (scan_markers body) - set (extractTokens body)"
    by auto
  from sub toks have "scan_markers r' = []" by auto
  then have "extractTokens r' = []" by (simp add: extractTokens_def)
  moreover from loop have "replaceTokens engine body config None opts = Inr (r', [])"
    by (simp add: replaceTokens_def)
  ultimately show ?thesis by blast
qed


text \<open>The theorem at a template with a style rule in single braces, a plain and a dotted
  token, the value of the second holding a dollar sign.\<close>

theorem round_trip_witness:
  "\<exists>result. replaceTokens reference_engine ''p { margin: 0 } {{client_name}} owes {{ payment.amount }}''
       (Json (JObj [(''client_name'', JStr ''Ann''), (''payment'', JObj [(''amount'', JStr ''$1,500'')])]))
       None default_replacer_options = Inr (result, [])
     \<and> extractTokens result = []"
proof -
  let ?body = "''p { margin: 0 } {{client_name}} owes {{ payment.amount }}''"
  let ?cfg = "Json (JObj [(''client_name'', JStr ''Ann''), (''payment'', JObj [(''amount'', JStr ''$1,500'')])])"
  have w: "tidy ?body" by code_simp
  have e: "extractTokens ?body = [''client_name'', ''payment.amount'']" by code_simp
  have c: "\<forall>c\<in>set ''client_name''. token_char c" "\<forall>c\<in>set ''payment.amount''. token_char c"
    by code_simp+
  have v: "substitutes ?cfg ''client_name'' = Some ''Ann''"
    "substitutes ?cfg ''payment.amount'' = Some ''$1,500''"
    by code_simp+
  have s: "safe_value ''Ann''" "safe_value ''$1,500''" by code_simp+
  have "\<forall>t\<in>set (extractTokens ?body).
           (\<forall>c\<in>set t. token_char c) \<and> (\<exists>v. substitutes ?cfg t = Some v \<and> safe_value v)"
    unfolding e using c v s by simp
  from round_trip [OF conforms_reference_engine w this] show ?thesis .
qed

text \<open>C7 as stated fails: a value that is itself a marker stays in the result, and the marker
  of a token with a dollar sign in its name is not replaced at all, though the token has
  a value.\<close>

theorem round_trip_counterexample:
  "map_sum id (extractTokens \<circ> fst)
       (replaceTokens reference_engine ''{{a}}'' (Json (JObj [(''a'', JStr ''{{a}}'')])) None
          default_replacer_options) = Inr [''a'']
   \<and> map_sum id (extractTokens \<circ> fst)
       (replaceTokens reference_engine ''{{a$}}'' (Json (JObj [(''a$'', JStr ''x'')])) None
          default_replacer_options) = Inr [''a$'']
   \<and> substitutes (Json (JObj [(''a$'', JStr ''x'')])) ''a$'' = Some ''x''"
  by code_simp

section \<open>The validator and the replacement\<close>













section \<open>A token that is not a regular expression\<close>

text \<open>C2 fails on the code. \<^verbatim>\<open>escapeRegex\<close> leaves the token \<^verbatim>\<open>c(\<close> as it is, so its
  expression is \<^verbatim>\<open>\{\{\s*c(\s*\}\}\<close>, which has an unterminated group. With an engine that
  rejects it, the text \<^verbatim>\<open>{{b}} {{c(}}\<close> and the empty configuration under \<^verbatim>\<open>fail\<close>, the
  loop records that \<^verbatim>\<open>b\<close> is missing and then \<^verbatim>\<open>replaceTokens\<close> throws the syntax error of
  the engine, not the error that lists the missing tokens.\<close>

theorem fail_policy_syntax_error:
  assumes "conforms engine" and "engine (token_pattern ''c('') = Inl e"
  shows "replaceTokens engine ''{{b}} {{c(}}'' (Json (JObj [])) None
            (default_replacer_options \<lparr> errorHandling := ''fail'' \<rparr>) = Inl e
       \<and> replace_token engine (Json (JObj [])) (default_replacer_options \<lparr> errorHandling := ''fail'' \<rparr>)
             (''{{b}} {{c(}}'', []) ''b''
           = Inr (''{{b}} {{c(}}'', [''Token '' @ [apostrophe] @ ''b'' @ [apostrophe] @ '' not found in config''])
       \<and> extractTokens ''{{b}} {{c(}}'' = [''b'', ''c('']
       \<and> token_pattern ''c(''
           = [backslash, CHR ''{'', backslash, CHR ''{'', backslash, CHR ''s'', CHR ''*'',
              CHR ''c'', CHR ''('',
              backslash, CHR ''s'', CHR ''*'', backslash, CHR ''}'', backslash, CHR ''}'']"
proof -
  let ?opts = "default_replacer_options \<lparr> errorHandling := ''fail'' \<rparr>"
  let ?cfg = "Json (JObj [])"
  let ?body = "''{{b}} {{c(}}''"
  have e: "extractTokens ?body = [''b'', ''c('']" by code_simp
  have tc: "\<forall>c\<in>set ''b''. token_char c" by code_simp
  obtain re where re: "engine (token_pattern ''b'') = Inr re"
    using assms(1) interpret_token_pattern [OF tc] by (simp add: conforms_def)
  have s: "substitutes ?cfg ''b'' = None" "caught_error ?cfg ''b'' = None" by code_simp+
  have b: "replace_token engine ?cfg ?opts (?body, []) ''b''
             = Inr (?body, [''Token '' @ [apostrophe] @ ''b'' @ [apostrophe] @ '' not found in config''])"
    unfolding replace_token_cases [where engine = engine and t = "''b''", OF re] s
    by (simp add: replace_missing_def handleMissingToken_def Let_def)
  have c: "replace_token engine ?cfg ?opts st ''c('' = Inl e" for st
    using assms(2) by (rule replace_token_syntax_error)
  have loop: "replace_loop engine ?cfg ?opts (?body, []) [''b'', ''c(''] = Inl e"
    unfolding replace_loop.simps b c by simp
  have r: "replaceTokens engine ?body ?cfg None ?opts = Inl e"
    unfolding replaceTokens_def Let_def option.case e loop by simp
  have p: "token_pattern ''c(''
           = [backslash, CHR ''{'', backslash, CHR ''{'', backslash, CHR ''s'', CHR ''*'',
              CHR ''c'', CHR ''('',
              backslash, CHR ''s'', CHR ''*'', backslash, CHR ''}'', backslash, CHR ''}'']"
    by (simp add: token_pattern_def)
  from r b e p show ?thesis by (intro conjI)
qed

text \<open>The theorem at the reference engine.\<close>

theorem fail_policy_syntax_error_witness:
  "replaceTokens reference_engine ''{{b}} {{c(}}'' (Json (JObj [])) None
       (default_replacer_options \<lparr> errorHandling := ''fail'' \<rparr>)
     = Inl (''Invalid regular expression: /'' @ token_pattern ''c('' @ ''/'')"
proof -
  have "parse_items (token_pattern ''c('') = None" by code_simp
  then have "reference_engine (token_pattern ''c('')
          = Inl (''Invalid regular expression: /'' @ token_pattern ''c('' @ ''/'')"
    by (simp add: reference_engine_def interpret_pattern_def)
  from fail_policy_syntax_error [OF conforms_reference_engine this] show ?thesis
    by (rule conjunct1)
qed

section \<open>Keys the flattening mistakes\<close>

text \<open>C9 fails on the code. For the configuration with the object \<^verbatim>\<open>{a: 1}\<close> under the empty
  key, the leaf path is \<^verbatim>\<open>.a\<close>, which is the token that resolves to the value; the
  flattening names it \<^verbatim>\<open>a\<close>, so with the token \<^verbatim>\<open>.a\<close> the value is found and still listed
  as unused. For a configuration with an own property \<^verbatim>\<open>hasOwnProperty\<close> the call with
  \<^verbatim>\<open>warnOnUnused\<close> throws, where the call without it returns a valid report.\<close>

theorem unused_paths_empty_key:
  "map_sum id unused
       (validateAgainstTokens (Json (JObj [([], JObj [(''a'', JNum 1)])])) [''.a'']
          (default_validator_options \<lparr> warnOnUnused := True \<rparr>)) = Inr [''a'']
   \<and> map_sum id (map fst \<circ> found)
       (validateAgainstTokens (Json (JObj [([], JObj [(''a'', JNum 1)])])) [''.a'']
          (default_validator_options \<lparr> warnOnUnused := True \<rparr>)) = Inr [''.a'']
   \<and> map (join ''.'') (leaf_paths [([], JObj [(''a'', JNum 1)])]) = [''.a'']
   \<and> validateAgainstTokens (Json (JObj [(''hasOwnProperty'', JNum 1)])) []
         (default_validator_options \<lparr> warnOnUnused := True \<rparr>)
       = Inl ''obj.hasOwnProperty is not a function''
   \<and> map_sum id valid
       (validateAgainstTokens (Json (JObj [(''hasOwnProperty'', JNum 1)])) [] default_validator_options)
       = Inr True"
  by code_simp

end
